theory Spec2Isabelle
  imports Complex_Main "HOL-Library.Word"
begin

section \<open>The fixed-timestep loop of package \<open>loop\<close>\<close>

text \<open>
  The package keeps all of its state in package-level variables; the model gathers them in
  the record \<open>globals\<close> and passes it explicitly. A \<open>time.Duration\<close> is an \<open>int64\<close>
  count of nanoseconds: it is a 64-bit word, \<open>+\<close>, \<open>-\<close> and \<open>*\<close> wrap as they do in Go, and
  the comparisons of the source are the signed ones (\<open><s\<close>, \<open>\<le>s\<close>). Go's \<open>int\<close> is taken
  at its 64-bit width. The \<open>float64\<close> quotient computed by \<open>stats\<close> is modelled by the
  quotient of the two operands in the reals (the rounding of \<open>float64\<close> is left out).
\<close>

type_synonym duration = "64 word"
type_synonym goint = "64 word"

definition Millisecond :: duration where
  "Millisecond = 1000000"

definition Second :: duration where
  "Second = 1000000000"

subsection \<open>options.go\<close>

text \<open>
  An \<open>Option\<close> is a function value \<open>func(*private) error\<close>. The package itself builds one
  kind, \<open>TimeStep s\<close>; every other option is code of the caller, named here by a key of
  type \<open>'o\<close> and run by the environment (see \<open>custom\<close> below).
\<close>

datatype 'o Option = TimeStep duration | Custom 'o

subsection \<open>The package variables\<close>

record ('s, 'o) globals =
  state :: "'s option"
  "next" :: "'s option"
  step :: duration
  delta :: duration
  lag :: duration
  options :: "'o Option list"
  frametime :: real
  xruns :: goint
  interval_frames :: goint
  interval_time :: duration
  interval_xruns :: goint

text \<open>The values the variables have when the program starts: \<open>step = time.Second / 60\<close>,
  everything else the zero value of its type.\<close>

definition initial :: "('s, 'o) globals" where
  "initial =
     \<lparr> state = None, next = None, step = Second div 60, delta = 0, lag = 0, options = [],
       frametime = 0, xruns = 0, interval_frames = 0, interval_time = 0, interval_xruns = 0 \<rparr>"

subsection \<open>Accessors and requests\<close>

definition Running :: "('s, 'o) globals \<Rightarrow> bool" where
  "Running g = (state g \<noteq> None)"

definition Step :: "('s, 'o) globals \<Rightarrow> duration" where
  "Step g = step g"

definition Delta :: "('s, 'o) globals \<Rightarrow> duration" where
  "Delta g = delta g"

definition Lag :: "('s, 'o) globals \<Rightarrow> duration" where
  "Lag g = lag g"

text \<open>
  \<open>func Stats() (frametime float64, overruns int) { return frametime, xruns }\<close>: the
  results are named, and inside the function the name \<open>frametime\<close> is the first result,
  which is zero when the function is entered, not the package variable of that name. So
  the function returns zero and the package variable \<open>xruns\<close>.
\<close>

definition Stats :: "('s, 'o) globals \<Rightarrow> real \<times> goint" where
  "Stats g = (0, xruns g)"

text \<open>\<open>Goto\<close> takes an interface value, which may be \<open>nil\<close> (\<open>None\<close>).\<close>

definition Goto :: "'s option \<Rightarrow> ('s, 'o) globals \<Rightarrow> ('s, 'o) globals" where
  "Goto l g = g\<lparr>next := l\<rparr>"

definition Stop :: "('s, 'o) globals \<Rightarrow> ('s, 'o) globals" where
  "Stop g = g\<lparr>next := None\<rparr>"

definition Configure :: "'o Option list \<Rightarrow> ('s, 'o) globals \<Rightarrow> ('s, 'o) globals" where
  "Configure os g = g\<lparr>options := options g @ os\<rparr>"

subsection \<open>Statistics\<close>

definition statsInterval :: duration where
  "statsInterval = Second div 4"

definition xrunThreshold :: duration where
  "xrunThreshold = 17 * Millisecond"

text \<open>\<open>stats()\<close>, statement by statement; it reads the variable \<open>delta\<close>. A frame count of
  zero at the division (an infinity or a NaN in Go) takes \<open>2^64\<close> frames in one window and
  is not modelled.\<close>

definition stats :: "('s, 'o) globals \<Rightarrow> ('s, 'o) globals" where
  "stats g =
     (let g1 = g\<lparr>interval_frames := interval_frames g + 1\<rparr>;
          g2 = g1\<lparr>interval_time := interval_time g1 + delta g1\<rparr>;
          g3 = (if xrunThreshold <s delta g2
                then g2\<lparr>interval_xruns := interval_xruns g2 + 1\<rparr> else g2)
      in if statsInterval \<le>s interval_time g3
         then g3\<lparr>frametime := real_of_int (sint (interval_time g3))
                                / real_of_int (sint (interval_frames g3)),
                 xruns := interval_xruns g3,
                 interval_time := 0, interval_frames := 0, interval_xruns := 0\<rparr>
         else g3)"

subsection \<open>The caller's code\<close>

text \<open>
  The states (values of the interface \<open>State\<close>, named by keys of type \<open>'s\<close>) and the
  options other than \<open>TimeStep\<close> are code of the caller. That code owns memory of its own
  (\<open>'w\<close>), may read every accessor of the package, and acts on the package through the
  exported functions \<open>Goto\<close>, \<open>Stop\<close> and \<open>Configure\<close>; so a piece of caller code is a
  function of the package variables and of its own memory that yields the requests it
  makes, in order, and its new memory. An option yields its \<open>error\<close> result as well.
  A call of \<open>Run\<close> from inside a callback, an option value applied by hand outside
  the loop, and a \<open>nil\<close> function queued as an option are not part of the model.
\<close>

datatype 's call = Enter 's | Leave 's | React 's | Update 's | Render 's

datatype ('s, 'o) request = GotoReq "'s option" | StopReq | ConfigureReq "'o Option list"

record ('s, 'o, 'w, 'e) env =
  callback :: "'s call \<Rightarrow> ('s, 'o) globals \<Rightarrow> 'w \<Rightarrow> ('s, 'o) request list \<times> 'w"
  custom :: "'o \<Rightarrow> ('s, 'o) globals \<Rightarrow> 'w \<Rightarrow> ('s, 'o) request list \<times> 'e option \<times> 'w"

fun perform :: "('s, 'o) request \<Rightarrow> ('s, 'o) globals \<Rightarrow> ('s, 'o) globals" where
  "perform (GotoReq l) g = Goto l g"
| "perform StopReq g = Stop g"
| "perform (ConfigureReq os) g = Configure os g"

fun perform_all :: "('s, 'o) request list \<Rightarrow> ('s, 'o) globals \<Rightarrow> ('s, 'o) globals" where
  "perform_all [] g = g"
| "perform_all (r # rs) g = perform_all rs (perform r g)"

text \<open>
  What is observed of an execution: the callbacks invoked and the options applied, in
  order (\<open>trace\<close>), and the requests the caller's code made, in order (\<open>issued\<close>).
\<close>

datatype ('s, 'o) event = Call "'s call" | Apply "'o Option"

record ('s, 'o, 'w) machine =
  ctl :: "('s, 'o) globals"
  usr :: 'w
  trace :: "('s, 'o) event list"
  issued :: "('s, 'o) request list"

datatype ('e, 'm) result = Ok 'm | Failed 'e 'm | Panic 'm

definition invoke ::
  "('s, 'o, 'w, 'e) env \<Rightarrow> 's call \<Rightarrow> ('s, 'o, 'w) machine \<Rightarrow> ('s, 'o, 'w) machine" where
  "invoke env c m =
     (case callback env c (ctl m) (usr m) of
        (rs, w) \<Rightarrow> m\<lparr>ctl := perform_all rs (ctl m), usr := w,
                     trace := trace m @ [Call c], issued := issued m @ rs\<rparr>)"

text \<open>\<open>state.React()\<close> and its siblings read the variable \<open>state\<close> at the call; a method
  call on a \<open>nil\<close> interface panics.\<close>

definition on_state ::
  "('s, 'o, 'w, 'e) env \<Rightarrow> ('s \<Rightarrow> 's call) \<Rightarrow> ('s, 'o, 'w) machine
     \<Rightarrow> ('e, ('s, 'o, 'w) machine) result" where
  "on_state env k m =
     (case state (ctl m) of None \<Rightarrow> Panic m | Some s \<Rightarrow> Ok (invoke env (k s) m))"

subsection \<open>Applying the options\<close>

fun apply_option ::
  "('s, 'o, 'w, 'e) env \<Rightarrow> 'o Option \<Rightarrow> ('s, 'o, 'w) machine
     \<Rightarrow> ('e, ('s, 'o, 'w) machine) result" where
  "apply_option env (TimeStep s) m =
     Ok (m\<lparr>ctl := (ctl m)\<lparr>step := s\<rparr>, trace := trace m @ [Apply (TimeStep s)]\<rparr>)"
| "apply_option env (Custom c) m =
     (case custom env c (ctl m) (usr m) of
        (rs, err, w) \<Rightarrow>
          (let m' = m\<lparr>ctl := perform_all rs (ctl m), usr := w,
                       trace := trace m @ [Apply (Custom c)], issued := issued m @ rs\<rparr>
           in case err of None \<Rightarrow> Ok m' | Some e \<Rightarrow> Failed e m'))"

text \<open>\<open>for _, o := range options\<close>: the slice is read once, when the loop starts, so the
  list walked is an argument of its own.\<close>

fun apply_options ::
  "('s, 'o, 'w, 'e) env \<Rightarrow> 'o Option list \<Rightarrow> ('s, 'o, 'w) machine
     \<Rightarrow> ('e, ('s, 'o, 'w) machine) result" where
  "apply_options env [] m = Ok m"
| "apply_options env (opt # os) m =
     (case apply_option env opt m of
        Ok m' \<Rightarrow> apply_options env os m'
      | Failed e m' \<Rightarrow> Failed e m'
      | Panic m' \<Rightarrow> Panic m')"

subsection \<open>One iteration of the loop of \<open>Run\<close>\<close>

text \<open>\<open>for lag >= step { lag -= step; state.React(); state.Update() }\<close>. The loop need
  not end (\<open>step = 0\<close>): \<open>None\<close> is the run that never leaves it.\<close>

partial_function (option) drain ::
  "('s, 'o, 'w, 'e) env \<Rightarrow> ('s, 'o, 'w) machine
     \<Rightarrow> ('e, ('s, 'o, 'w) machine) result option" where
  "drain env m =
     (if step (ctl m) \<le>s lag (ctl m) then
        (case on_state env React (m\<lparr>ctl := (ctl m)\<lparr>lag := lag (ctl m) - step (ctl m)\<rparr>\<rparr>) of
           Ok m1 \<Rightarrow>
             (case on_state env Update m1 of
                Ok m2 \<Rightarrow> drain env m2
              | Failed e m2 \<Rightarrow> Some (Failed e m2)
              | Panic m2 \<Rightarrow> Some (Panic m2))
         | Failed e m1 \<Rightarrow> Some (Failed e m1)
         | Panic m1 \<Rightarrow> Some (Panic m1))
      else Some (Ok m))"

declare drain.simps [code]

text \<open>Lines 115 to 123: the single \<open>React\<close> when no update is due, then the drain.\<close>

definition react_update ::
  "('s, 'o, 'w, 'e) env \<Rightarrow> ('s, 'o, 'w) machine
     \<Rightarrow> ('e, ('s, 'o, 'w) machine) result option" where
  "react_update env m =
     (case (if lag (ctl m) <s step (ctl m) then on_state env React m else Ok m) of
        Ok m1 \<Rightarrow> drain env m1
      | Failed e m1 \<Rightarrow> Some (Failed e m1)
      | Panic m1 \<Rightarrow> Some (Panic m1))"

text \<open>Lines 128 to 136, where \<open>e\<close> is the value of \<open>t1.Sub(t0)\<close>: the frame is recorded
  (\<open>delta = t1.Sub(t0); stats()\<close>) before \<open>delta\<close> is clamped.\<close>

definition record_frame :: "duration \<Rightarrow> ('s, 'o) globals \<Rightarrow> ('s, 'o) globals" where
  "record_frame e g = stats (g\<lparr>delta := e\<rparr>)"

definition measure_frame :: "duration \<Rightarrow> ('s, 'o) globals \<Rightarrow> ('s, 'o) globals" where
  "measure_frame e g =
     (let g2 = record_frame e g;
          g3 = (if 4 * step g2 <s delta g2 then g2\<lparr>delta := 4 * step g2\<rparr> else g2)
      in g3\<lparr>lag := lag g3 + delta g3\<rparr>)"

definition render_measure ::
  "('s, 'o, 'w, 'e) env \<Rightarrow> duration \<Rightarrow> ('s, 'o, 'w) machine
     \<Rightarrow> ('e, ('s, 'o, 'w) machine) result" where
  "render_measure env e m =
     (case on_state env Render m of
        Ok m1 \<Rightarrow> Ok (m1\<lparr>ctl := measure_frame e (ctl m1)\<rparr>)
      | Failed x m1 \<Rightarrow> Failed x m1
      | Panic m1 \<Rightarrow> Panic m1)"

text \<open>The body of \<open>for next != nil\<close>, from \<open>state = next\<close> on.\<close>

definition promote :: "('s, 'o, 'w) machine \<Rightarrow> ('s, 'o, 'w) machine" where
  "promote m = m\<lparr>ctl := (ctl m)\<lparr>state := next (ctl m)\<rparr>\<rparr>"

definition iteration ::
  "('s, 'o, 'w, 'e) env \<Rightarrow> duration \<Rightarrow> ('s, 'o, 'w) machine
     \<Rightarrow> ('e, ('s, 'o, 'w) machine) result option" where
  "iteration env e m =
     (let m0 = promote m in
      case apply_options env (options (ctl m0)) m0 of
        Ok m1 \<Rightarrow>
          (case react_update env m1 of
             None \<Rightarrow> None
           | Some (Ok m2) \<Rightarrow> Some (render_measure env e m2)
           | Some (Failed x m2) \<Rightarrow> Some (Failed x m2)
           | Some (Panic m2) \<Rightarrow> Some (Panic m2))
      | Failed x m1 \<Rightarrow> Some (Failed x m1)
      | Panic m1 \<Rightarrow> Some (Panic m1))"

subsection \<open>\<open>Run\<close>\<close>

text \<open>
  \<open>Run\<close> returns \<open>nil\<close> or an error: the one it makes itself, or the one of an option.
  The clock is the list of the successive values of \<open>t1.Sub(t0)\<close>, one for each
  iteration; a run that reaches the top of an iteration when the list is used up is
  \<open>Waiting\<close>, still inside the loop. Go reads a monotonic clock, so these values are
  not negative; the model takes any value, and a statement that needs that says so.
\<close>

datatype 'e error = AlreadyRunning | OptionError 'e

datatype ('e, 'm) outcome = Returned "'e error option" 'm | Panicked 'm | Waiting 'm

text \<open>Lines 139 to 142.\<close>

definition leave ::
  "('s, 'o, 'w, 'e) env \<Rightarrow> ('s, 'o, 'w) machine \<Rightarrow> ('e, ('s, 'o, 'w) machine) outcome" where
  "leave env m =
     (case on_state env Leave m of
        Ok m1 \<Rightarrow> Returned None (m1\<lparr>ctl := (ctl m1)\<lparr>state := None\<rparr>\<rparr>)
      | Failed x m1 \<Rightarrow> Panicked m1
      | Panic m1 \<Rightarrow> Panicked m1)"

fun loop ::
  "('s, 'o, 'w, 'e) env \<Rightarrow> ('s, 'o, 'w) machine \<Rightarrow> duration list
     \<Rightarrow> ('e, ('s, 'o, 'w) machine) outcome option" where
  "loop env m [] = (if next (ctl m) \<noteq> None then Some (Waiting m) else Some (leave env m))"
| "loop env m (e # es) =
     (if next (ctl m) \<noteq> None then
        (case iteration env e m of
           None \<Rightarrow> None
         | Some (Ok m') \<Rightarrow> loop env m' es
         | Some (Failed x m') \<Rightarrow> Some (Returned (Some (OptionError x)) m')
         | Some (Panic m') \<Rightarrow> Some (Panicked m'))
      else Some (leave env m))"

definition Run ::
  "('s, 'o, 'w, 'e) env \<Rightarrow> 's option \<Rightarrow> ('s, 'o, 'w) machine \<Rightarrow> duration list
     \<Rightarrow> ('e, ('s, 'o, 'w) machine) outcome option" where
  "Run env start m es =
     (if state (ctl m) \<noteq> None then Some (Returned (Some AlreadyRunning) m)
      else case start of
        None \<Rightarrow> Some (Panicked m)
      | Some s \<Rightarrow>
          (let m1 = invoke env (Enter s) m;
               m2 = invoke env (React s) m1;
               m3 = invoke env (Update s) m2;
               m4 = m3\<lparr>ctl := (ctl m3)\<lparr>next := start\<rparr>\<rparr>;
               m5 = m4\<lparr>ctl := (ctl m4)\<lparr>delta := 0, lag := 0\<rparr>\<rparr>
           in loop env m5 es))"

subsection \<open>The measurement windows, in the words of the specification\<close>

text \<open>
  The frames recorded are cut into windows: a window is completed by the first frame
  with which its accumulated time reaches the measurement interval, and the next frame
  opens a new one. \<open>last_window cur done ds\<close> is the last window completed once the frames
  \<open>ds\<close> have been recorded, where \<open>cur\<close> holds the frames of the window that is open and
  \<open>done\<close> the last window completed before. What is exposed is the average frame time
  and the number of overruns of that window, and zero while there is none. Sums and
  counts are those of the machine (\<open>int64\<close>).
\<close>

fun last_window ::
  "duration list \<Rightarrow> duration list option \<Rightarrow> duration list \<Rightarrow> duration list option" where
  "last_window cur done [] = done"
| "last_window cur done (d # ds) =
     (if statsInterval \<le>s sum_list (cur @ [d])
      then last_window [] (Some (cur @ [d])) ds
      else last_window (cur @ [d]) done ds)"

definition window_frametime :: "duration list \<Rightarrow> real" where
  "window_frametime w =
     real_of_int (sint (sum_list w)) / real_of_int (sint (word_of_nat (length w) :: goint))"

definition window_overruns :: "duration list \<Rightarrow> goint" where
  "window_overruns w = word_of_nat (length (filter (\<lambda>d. xrunThreshold <s d) w))"

definition published :: "duration list option \<Rightarrow> real \<times> goint" where
  "published done =
     (case done of None \<Rightarrow> (0, 0) | Some w \<Rightarrow> (window_frametime w, window_overruns w))"

definition exposed :: "duration list \<Rightarrow> real \<times> goint" where
  "exposed ds = published (last_window [] None ds)"

subsection \<open>Notions used in the statements\<close>

text \<open>The frames \<open>ds\<close> recorded one after the other.\<close>

fun record_frames :: "duration list \<Rightarrow> ('s, 'o) globals \<Rightarrow> ('s, 'o) globals" where
  "record_frames [] g = g"
| "record_frames (d # ds) g = record_frames ds (record_frame d g)"

text \<open>The variables of the statistics.\<close>

definition stat_vars :: "('s, 'o) globals \<Rightarrow> real \<times> goint \<times> goint \<times> duration \<times> goint" where
  "stat_vars g = (frametime g, xruns g, interval_frames g, interval_time g, interval_xruns g)"

text \<open>The two package variables that \<open>stats\<close> publishes at the end of a window.\<close>

definition window_vars :: "('s, 'o) globals \<Rightarrow> real \<times> goint" where
  "window_vars g = (frametime g, xruns g)"

text \<open>One round of the drain loop on state \<open>s\<close>: the subtraction, \<open>React\<close>, \<open>Update\<close>.\<close>

definition drain_round ::
  "('s, 'o, 'w, 'e) env \<Rightarrow> 's \<Rightarrow> ('s, 'o, 'w) machine \<Rightarrow> ('s, 'o, 'w) machine" where
  "drain_round env s m =
     invoke env (Update s)
       (invoke env (React s) (m\<lparr>ctl := (ctl m)\<lparr>lag := lag (ctl m) - step (ctl m)\<rparr>\<rparr>))"

text \<open>The value of the variable \<open>next\<close> once the requests \<open>rs\<close> have been made, from its
  value before.\<close>

fun pending :: "('s, 'o) request list \<Rightarrow> 's option \<Rightarrow> 's option" where
  "pending [] n = n"
| "pending (GotoReq l # rs) n = pending rs l"
| "pending (StopReq # rs) n = pending rs None"
| "pending (ConfigureReq os # rs) n = pending rs n"

definition is_configure :: "('s, 'o) request \<Rightarrow> bool" where
  "is_configure r = (case r of ConfigureReq os \<Rightarrow> True | _ \<Rightarrow> False)"

text \<open>The machine \<open>m'\<close> is the machine \<open>m\<close> after caller code that made the requests \<open>rs\<close>,
  as far as the requests and the variable \<open>next\<close> go.\<close>

definition asked ::
  "('s, 'o, 'w) machine \<Rightarrow> ('s, 'o, 'w) machine \<Rightarrow> ('s, 'o) request list \<Rightarrow> bool" where
  "asked m m' rs \<longleftrightarrow> issued m' = issued m @ rs \<and> next (ctl m') = pending rs (next (ctl m))"

text \<open>The phases of an iteration whose state is \<open>s\<close>: the single \<open>React\<close> of lines 116 to
  118, and \<open>Render\<close> followed by the measurement.\<close>

definition catch_up ::
  "('s, 'o, 'w, 'e) env \<Rightarrow> 's \<Rightarrow> ('s, 'o, 'w) machine \<Rightarrow> ('s, 'o, 'w) machine" where
  "catch_up env s m = (if lag (ctl m) <s step (ctl m) then invoke env (React s) m else m)"

definition frame_end ::
  "('s, 'o, 'w, 'e) env \<Rightarrow> 's \<Rightarrow> duration \<Rightarrow> ('s, 'o, 'w) machine \<Rightarrow> ('s, 'o, 'w) machine" where
  "frame_end env s e m =
     (invoke env (Render s) m)\<lparr>ctl := measure_frame e (ctl (invoke env (Render s) m))\<rparr>"

text \<open>The machine at the first test of \<open>next != nil\<close>, in a run started on state \<open>s\<close>.\<close>

definition primed ::
  "('s, 'o, 'w, 'e) env \<Rightarrow> 's \<Rightarrow> ('s, 'o, 'w) machine \<Rightarrow> ('s, 'o, 'w) machine" where
  "primed env s m =
     (let m3 = invoke env (Update s) (invoke env (React s) (invoke env (Enter s) m))
      in m3\<lparr>ctl := (ctl m3)\<lparr>next := Some s, delta := 0, lag := 0\<rparr>\<rparr>)"

text \<open>The machine an outcome carries.\<close>

fun final :: "('e, 'm) outcome \<Rightarrow> 'm" where
  "final (Returned err m) = m"
| "final (Panicked m) = m"
| "final (Waiting m) = m"

subsection \<open>A caller, for concrete runs\<close>

text \<open>
  States are numbered, and the caller's memory counts the frames rendered. Rendering
  state \<open>s\<close> asks for state \<open>s + 1\<close> on the first two frames and for a stop from the third
  on; no other callback makes a request. The option of key \<open>c\<close> succeeds until \<open>c\<close> frames
  have been rendered and fails with \<open>''late''\<close> from then on.
\<close>

definition demo_env :: "(nat, nat, nat, string) env" where
  "demo_env =
     \<lparr> callback = (\<lambda>c g w. case c of
          Render s \<Rightarrow> (if 2 \<le> w then [StopReq] else [GotoReq (Some (Suc s))], Suc w)
        | _ \<Rightarrow> ([], w)),
       custom = (\<lambda>c g w. ([], if c \<le> w then Some ''late'' else None, w)) \<rparr>"

definition idle :: "(nat, nat, nat) machine" where
  "idle = \<lparr> ctl = initial, usr = 0, trace = [], issued = [] \<rparr>"

definition busy :: "(nat, nat, nat) machine" where
  "busy = \<lparr> ctl = initial\<lparr>state := Some 7, next := Some 7, lag := 5\<rparr>, usr = 1,
            trace = [Call (Enter 7)], issued = [] \<rparr>"

text \<open>
  A second caller, whose callbacks make several requests: \<open>React\<close> asks for state 5 and
  then for a stop; \<open>Render\<close> asks for state 6, queues an option, asks for state 8 and
  calls \<open>Configure\<close> with nothing.
\<close>

definition hop_env :: "(nat, nat, nat, string) env" where
  "hop_env =
     \<lparr> callback = (\<lambda>c g w. case c of
          React s \<Rightarrow> ([GotoReq (Some 5), StopReq], w)
        | Render s \<Rightarrow> ([GotoReq (Some 6), ConfigureReq [TimeStep 20000000],
                       GotoReq (Some 8), ConfigureReq []], w)
        | _ \<Rightarrow> ([], w)),
       custom = (\<lambda>c g w. ([], None, w)) \<rparr>"


text \<open>
  Machines met in the runs below, written out: \<open>hopped\<close> is \<open>busy\<close> after one iteration
  with the second caller; \<open>configured\<close> has three options queued, of which the second
  fails once two frames have been rendered, and \<open>third_top\<close> is its run at the top of the
  third iteration; \<open>idle_third\<close> and \<open>idle_rendered\<close> are the run of \<open>idle\<close> before and
  after its third iteration; \<open>two_frames\<close> is the run of \<open>idle\<close> after frames of 200 ms and
  60 ms; \<open>far_step\<close> has a step of \<open>2^61 + 1\<close> nanoseconds queued, and \<open>far_top\<close> is its run
  after one frame; \<open>at_step\<close> has \<open>lag = step\<close>.
\<close>

definition hopped :: "(nat, nat, nat) machine" where
  "hopped =
     \<lparr> ctl = \<lparr> state = Some 7, next = Some 8, step = 16666666, delta = 9, lag = 14,
               options = [TimeStep 20000000], frametime = 0, xruns = 0,
               interval_frames = 1, interval_time = 9, interval_xruns = 0 \<rparr>,
       usr = 1,
       trace = [Call (Enter 7), Call (React 7), Call (Render 7)],
       issued = [GotoReq (Some 5), StopReq, GotoReq (Some 6), ConfigureReq [TimeStep 20000000],
                 GotoReq (Some 8), ConfigureReq []] \<rparr>"

definition at_step :: "(nat, nat, nat) machine" where
  "at_step = busy\<lparr>ctl := (ctl busy)\<lparr>lag := 16666666\<rparr>\<rparr>"

definition configured :: "(nat, nat, nat) machine" where
  "configured = idle\<lparr>ctl := Configure [TimeStep 10000000, Custom 2, Custom 9] initial\<rparr>"

definition third_top :: "(nat, nat, nat) machine" where
  "third_top =
     \<lparr> ctl = \<lparr> state = Some 1, next = Some 2, step = 10000000, delta = 5, lag = 5,
               options = [TimeStep 10000000, Custom 2, Custom 9], frametime = 0, xruns = 0,
               interval_frames = 2, interval_time = 20000005, interval_xruns = 1 \<rparr>,
       usr = 2,
       trace = [Call (Enter 0), Call (React 0), Call (Update 0),
                Apply (TimeStep 10000000), Apply (Custom 2), Apply (Custom 9),
                Call (React 0), Call (Render 0),
                Apply (TimeStep 10000000), Apply (Custom 2), Apply (Custom 9),
                Call (React 1), Call (Update 1), Call (React 1), Call (Update 1),
                Call (Render 1)],
       issued = [GotoReq (Some 1), GotoReq (Some 2)] \<rparr>"

definition third_applied :: "(nat, nat, nat) machine" where
  "third_applied =
     (promote third_top)\<lparr>trace := trace third_top @ [Apply (TimeStep 10000000)]\<rparr>"

definition third_failed :: "(nat, nat, nat) machine" where
  "third_failed = third_applied\<lparr>trace := trace third_applied @ [Apply (Custom 2)]\<rparr>"

definition idle_third :: "(nat, nat, nat) machine" where
  "idle_third =
     \<lparr> ctl = \<lparr> state = Some 1, next = Some 2, step = 16666666, delta = 5, lag = 3333339,
               options = [], frametime = 0, xruns = 0,
               interval_frames = 2, interval_time = 20000005, interval_xruns = 1 \<rparr>,
       usr = 2,
       trace = [Call (Enter 0), Call (React 0), Call (Update 0), Call (React 0),
                Call (Render 0), Call (React 1), Call (Update 1), Call (Render 1)],
       issued = [GotoReq (Some 1), GotoReq (Some 2)] \<rparr>"

definition idle_rendered :: "(nat, nat, nat) machine" where
  "idle_rendered =
     \<lparr> ctl = \<lparr> state = Some 2, next = None, step = 16666666, delta = 66666664,
               lag = 70000003, options = [], frametime = 0, xruns = 0,
               interval_frames = 3, interval_time = 120000005, interval_xruns = 2 \<rparr>,
       usr = 3,
       trace = [Call (Enter 0), Call (React 0), Call (Update 0), Call (React 0),
                Call (Render 0), Call (React 1), Call (Update 1), Call (Render 1),
                Call (React 2), Call (Render 2)],
       issued = [GotoReq (Some 1), GotoReq (Some 2), StopReq] \<rparr>"

definition two_frames :: "(nat, nat, nat) machine" where
  "two_frames =
     \<lparr> ctl = \<lparr> state = Some 1, next = Some 2, step = 16666666, delta = 60000000,
               lag = 60000000, options = [], frametime = 130000000, xruns = 2,
               interval_frames = 0, interval_time = 0, interval_xruns = 0 \<rparr>,
       usr = 2,
       trace = [Call (Enter 0), Call (React 0), Call (Update 0), Call (React 0),
                Call (Render 0), Call (React 1), Call (Update 1), Call (React 1),
                Call (Update 1), Call (React 1), Call (Update 1), Call (React 1),
                Call (Update 1), Call (Render 1)],
       issued = [GotoReq (Some 1), GotoReq (Some 2)] \<rparr>"

definition far_step :: "(nat, nat, nat) machine" where
  "far_step = idle\<lparr>ctl := Configure [TimeStep 2305843009213693953] initial\<rparr>"

definition far_top :: "(nat, nat, nat) machine" where
  "far_top =
     \<lparr> ctl = \<lparr> state = Some 0, next = Some 1, step = 2305843009213693953,
               delta = - 9223372036854775804, lag = - 9223372036854775804,
               options = [TimeStep 2305843009213693953], frametime = 0, xruns = 0,
               interval_frames = 1, interval_time = 5, interval_xruns = 0 \<rparr>,
       usr = 1,
       trace = [Call (Enter 0), Call (React 0), Call (Update 0),
                Apply (TimeStep 2305843009213693953), Call (React 0), Call (Render 0)],
       issued = [GotoReq (Some 1)] \<rparr>"

definition far_applied :: "(nat, nat, nat) machine" where
  "far_applied =
     (promote far_top)\<lparr>trace := trace far_top @ [Apply (TimeStep 2305843009213693953)]\<rparr>"

definition far_drained :: "(nat, nat, nat) machine" where
  "far_drained = far_applied\<lparr>trace := trace far_applied @ [Call (React 1)]\<rparr>"

definition half_window :: "(nat, nat) globals" where
  "half_window = initial\<lparr>interval_frames := 1, interval_time := 200000000,
     interval_xruns := 1, delta := 50000000\<rparr>"

definition stepped :: "(nat, nat, nat) machine" where
  "stepped =
     \<lparr> ctl = \<lparr> state = Some 7, next = Some 8, step = 16666666, delta = 3, lag = 3,
               options = [], frametime = 0, xruns = 0,
               interval_frames = 1, interval_time = 3, interval_xruns = 0 \<rparr>,
       usr = 2,
       trace = [Call (Enter 7), Call (React 7), Call (Update 7), Call (Render 7)],
       issued = [GotoReq (Some 8)] \<rparr>"

definition at_step_drained :: "(nat, nat, nat) machine" where
  "at_step_drained =
     at_step\<lparr>ctl := (ctl at_step)\<lparr>lag := 0\<rparr>,
             trace := trace at_step @ [Call (React 7), Call (Update 7)]\<rparr>"

section \<open>Properties\<close>

subsection \<open>Concrete runs\<close>

text \<open>The runs of the callers above, evaluated.\<close>

lemmas run_simps = Run_def iteration_def promote_def react_update_def on_state_def invoke_def
  render_measure_def measure_frame_def record_frame_def stats_def leave_def Let_def
  Goto_def Stop_def Configure_def statsInterval_def xrunThreshold_def Second_def Millisecond_def
  initial_def demo_env_def idle_def busy_def word_sless_alt word_sle_eq drain.simps

lemma configured_two: "Run demo_env (Some 0) configured [20000000, 5] = Some (Waiting third_top)"
  by (simp add: run_simps configured_def third_top_def)

lemma configured_three:
  "Run demo_env (Some 0) configured [20000000, 5, 7]
     = Some (Returned (Some (OptionError ''late'')) third_failed)"
  by (simp add: run_simps configured_def third_top_def third_applied_def third_failed_def)

lemma third_options:
  "apply_options demo_env [TimeStep 10000000] (promote third_top) = Ok third_applied"
  "apply_option demo_env (Custom 2) third_applied = Failed ''late'' third_failed"
  by (simp_all add: run_simps third_top_def third_applied_def third_failed_def)

lemma idle_two: "Run demo_env (Some 0) idle [20000000, 5] = Some (Waiting idle_third)"
  by (simp add: run_simps idle_third_def)

lemma idle_third_iteration: "iteration demo_env 100000000 idle_third = Some (Ok idle_rendered)"
  by (simp add: run_simps idle_third_def idle_rendered_def)

lemma idle_windowed: "Run demo_env (Some 0) idle [200000000, 60000000] = Some (Waiting two_frames)"
  by (simp add: run_simps two_frames_def)

lemma hop_iteration: "iteration hop_env 9 busy = Some (Ok hopped)"
  by (simp add: run_simps hop_env_def hopped_def)

lemma far_one: "Run demo_env (Some 0) far_step [5] = Some (Waiting far_top)"
  by (simp add: run_simps far_step_def far_top_def)

lemma far_two:
  "apply_options demo_env (options (ctl far_top)) (promote far_top) = Ok far_applied"
  "react_update demo_env far_applied = Some (Ok far_drained)"
  "lag (ctl far_drained) <s 0"
  by (simp_all add: run_simps far_top_def far_applied_def far_drained_def)

lemma at_step_iteration: "iteration demo_env 3 at_step = Some (Ok stepped)"
  by (simp add: run_simps at_step_def stepped_def)

lemma at_step_react_update: "react_update demo_env at_step = Some (Ok at_step_drained)"
  by (simp add: run_simps at_step_def at_step_drained_def)

subsection \<open>What the requests leave alone\<close>

lemma perform_all_append: "perform_all (rs @ rs') g = perform_all rs' (perform_all rs g)"
  by (induction rs arbitrary: g) simp_all

lemma perform_keeps:
  "state (perform r g) = state g" "step (perform r g) = step g"
  "delta (perform r g) = delta g" "lag (perform r g) = lag g"
  "frametime (perform r g) = frametime g" "xruns (perform r g) = xruns g"
  "interval_frames (perform r g) = interval_frames g"
  "interval_time (perform r g) = interval_time g"
  "interval_xruns (perform r g) = interval_xruns g"
  by (cases r; simp add: Goto_def Stop_def Configure_def)+

lemma perform_all_keeps:
  "state (perform_all rs g) = state g" "step (perform_all rs g) = step g"
  "delta (perform_all rs g) = delta g" "lag (perform_all rs g) = lag g"
  "frametime (perform_all rs g) = frametime g" "xruns (perform_all rs g) = xruns g"
  "interval_frames (perform_all rs g) = interval_frames g"
  "interval_time (perform_all rs g) = interval_time g"
  "interval_xruns (perform_all rs g) = interval_xruns g"
  by (induction rs arbitrary: g; simp add: perform_keeps)+

lemma stats_keeps:
  "state (stats g) = state g" "next (stats g) = next g" "step (stats g) = step g"
  "delta (stats g) = delta g" "lag (stats g) = lag g" "options (stats g) = options g"
  by (simp_all add: stats_def Let_def)


subsection \<open>Requests\<close>

lemma next_perform_all: "next (perform_all rs g) = pending rs (next g)"
  by (induction rs "next g" arbitrary: g rule: pending.induct)
     (simp_all add: Goto_def Stop_def Configure_def)

lemma pending_append: "pending (rs @ rs') n = pending rs' (pending rs n)"
  by (induction rs n rule: pending.induct) simp_all

lemma pending_configure: "\<forall>r \<in> set rs. is_configure r \<Longrightarrow> pending rs n = n"
  by (induction rs n rule: pending.induct) (simp_all add: is_configure_def)

lemma pending_last_goto:
  "\<forall>r \<in> set rs2. is_configure r \<Longrightarrow> pending (rs1 @ GotoReq l # rs2) n = l"
  by (simp add: pending_append pending_configure)

lemma pending_last_stop:
  "\<forall>r \<in> set rs2. is_configure r \<Longrightarrow> pending (rs1 @ StopReq # rs2) n = None"
  by (simp add: pending_append pending_configure)

subsection \<open>invoke\<close>

lemma invoke_keeps:
  "state (ctl (invoke env c m)) = state (ctl m)"
  "step (ctl (invoke env c m)) = step (ctl m)"
  "delta (ctl (invoke env c m)) = delta (ctl m)"
  "lag (ctl (invoke env c m)) = lag (ctl m)"
  "stat_vars (ctl (invoke env c m)) = stat_vars (ctl m)"
  "trace (invoke env c m) = trace m @ [Call c]"
  by (simp_all add: invoke_def perform_all_keeps stat_vars_def split: prod.split)

lemma invoke_asked:
  "\<exists>rs. issued (invoke env c m) = issued m @ rs
     \<and> next (ctl (invoke env c m)) = pending rs (next (ctl m))"
  by (simp add: invoke_def next_perform_all split: prod.split)

lemma asked_same: "issued m' = issued m \<Longrightarrow> next (ctl m') = next (ctl m) \<Longrightarrow> asked m m' []"
  by (simp add: asked_def)

lemma asked_trans: "asked m m' rs \<Longrightarrow> asked m' m'' rs' \<Longrightarrow> asked m m'' (rs @ rs')"
  by (simp add: asked_def pending_append)

lemma asked_invoke: "\<exists>rs. asked m (invoke env c m) rs"
  using invoke_asked [of env c m] by (simp add: asked_def)

subsection \<open>on_state\<close>

lemma on_state_Some:
  "state (ctl m) = Some s \<Longrightarrow> on_state env k m = Ok (invoke env (k s) m)"
  by (simp add: on_state_def)

lemma on_state_None: "state (ctl m) = None \<Longrightarrow> on_state env k m = Panic m"
  by (simp add: on_state_def)

lemma on_state_not_Failed: "on_state env k m \<noteq> Failed x m'"
  by (simp add: on_state_def split: option.split)

subsection \<open>Options\<close>

lemma apply_option_Ok:
  assumes "apply_option env opt m = Ok m'"
  shows "state (ctl m') = state (ctl m) \<and> delta (ctl m') = delta (ctl m)
    \<and> lag (ctl m') = lag (ctl m) \<and> stat_vars (ctl m') = stat_vars (ctl m)
    \<and> trace m' = trace m @ [Apply opt] \<and> (\<exists>rs. asked m m' rs)"
proof (cases opt)
  case (TimeStep d)
  with assms have m': "m' = m\<lparr>ctl := (ctl m)\<lparr>step := d\<rparr>, trace := trace m @ [Apply (TimeStep d)]\<rparr>"
    by simp
  have "asked m m' []"
    unfolding m' by (rule asked_same) simp_all
  then show ?thesis
    using TimeStep by (auto simp: m' stat_vars_def)
next
  case (Custom c)
  obtain rs err w where cu: "custom env c (ctl m) (usr m) = (rs, err, w)"
    by (cases "custom env c (ctl m) (usr m)") auto
  with assms Custom have m': "m' = m\<lparr>ctl := perform_all rs (ctl m), usr := w,
      trace := trace m @ [Apply (Custom c)], issued := issued m @ rs\<rparr>"
    by (simp add: Let_def split: option.splits)
  have "asked m m' rs"
    by (simp add: asked_def m' next_perform_all)
  then show ?thesis
    using Custom by (auto simp: m' perform_all_keeps stat_vars_def)
qed

lemma apply_option_Failed:
  assumes "apply_option env opt m = Failed x m'"
  shows "state (ctl m') = state (ctl m) \<and> trace m' = trace m @ [Apply opt]
    \<and> (\<exists>c. opt = Custom c \<and> fst (snd (custom env c (ctl m) (usr m))) = Some x)"
proof (cases opt)
  case (TimeStep d)
  with assms show ?thesis by simp
next
  case (Custom c)
  obtain rs err w where cu: "custom env c (ctl m) (usr m) = (rs, err, w)"
    by (cases "custom env c (ctl m) (usr m)") auto
  with assms Custom have m': "m' = m\<lparr>ctl := perform_all rs (ctl m), usr := w,
      trace := trace m @ [Apply (Custom c)], issued := issued m @ rs\<rparr>" and "err = Some x"
    by (simp_all add: Let_def split: option.splits)
  then show ?thesis
    using Custom cu by (simp add: perform_all_keeps)
qed

lemma apply_option_not_Panic: "apply_option env opt m \<noteq> Panic m'"
  by (cases opt) (auto simp: Let_def split: prod.splits option.splits)

lemma apply_options_not_Panic: "apply_options env os m \<noteq> Panic m'"
proof (induction os arbitrary: m)
  case Nil
  show ?case by simp
next
  case (Cons opt os)
  then show ?case
    by (cases "apply_option env opt m") (simp_all add: apply_option_not_Panic)
qed

lemma apply_options_Ok:
  assumes "apply_options env os m = Ok m'"
  shows "state (ctl m') = state (ctl m) \<and> delta (ctl m') = delta (ctl m)
    \<and> lag (ctl m') = lag (ctl m) \<and> stat_vars (ctl m') = stat_vars (ctl m)
    \<and> trace m' = trace m @ map Apply os \<and> (\<exists>rs. asked m m' rs)"
  using assms
proof (induction os arbitrary: m)
  case Nil
  then have "m' = m" by simp
  moreover have "asked m m []" by (rule asked_same) simp_all
  ultimately show ?case by auto
next
  case (Cons opt os)
  from Cons.prems obtain m1 where 1: "apply_option env opt m = Ok m1"
    and 2: "apply_options env os m1 = Ok m'"
    by (cases "apply_option env opt m") simp_all
  from apply_option_Ok [OF 1] obtain rs1 where a1: "asked m m1 rs1"
    and k1: "state (ctl m1) = state (ctl m)" "delta (ctl m1) = delta (ctl m)"
      "lag (ctl m1) = lag (ctl m)" "stat_vars (ctl m1) = stat_vars (ctl m)"
      "trace m1 = trace m @ [Apply opt]"
    by blast
  from Cons.IH [OF 2] obtain rs2 where a2: "asked m1 m' rs2"
    and k2: "state (ctl m') = state (ctl m1)" "delta (ctl m') = delta (ctl m1)"
      "lag (ctl m') = lag (ctl m1)" "stat_vars (ctl m') = stat_vars (ctl m1)"
      "trace m' = trace m1 @ map Apply os"
    by blast
  from asked_trans [OF a1 a2] k1 k2 show ?case
    by auto
qed

text \<open>The first option that fails ends the walk.\<close>

lemma apply_options_Failed:
  assumes "apply_options env os m = Failed x m'"
  shows "\<exists>pre opt rest m1. os = pre @ opt # rest \<and> apply_options env pre m = Ok m1
    \<and> apply_option env opt m1 = Failed x m'"
  using assms
proof (induction os arbitrary: m)
  case Nil
  then show ?case by simp
next
  case (Cons opt os)
  show ?case
  proof (cases "apply_option env opt m")
    case (Ok m1)
    with Cons.prems have "apply_options env os m1 = Failed x m'" by simp
    from Cons.IH [OF this] obtain pre o' rest m2 where
      "os = pre @ o' # rest" "apply_options env pre m1 = Ok m2"
      "apply_option env o' m2 = Failed x m'"
      by blast
    with Ok have "opt # os = (opt # pre) @ o' # rest \<and> apply_options env (opt # pre) m = Ok m2
      \<and> apply_option env o' m2 = Failed x m'"
      by simp
    then show ?thesis by blast
  next
    case (Failed y m1)
    with Cons.prems have "y = x" "m1 = m'" by simp_all
    with Failed have "opt # os = [] @ opt # os \<and> apply_options env [] m = Ok m
      \<and> apply_option env opt m = Failed x m'"
      by simp
    then show ?thesis by blast
  next
    case (Panic m1)
    with apply_option_not_Panic show ?thesis by blast
  qed
qed

lemma apply_options_fail_at:
  assumes "apply_options env pre m = Ok m1" and "apply_option env opt m1 = Failed x m'"
  shows "apply_options env (pre @ opt # rest) m = Failed x m'"
  using assms
proof (induction pre arbitrary: m)
  case Nil
  then show ?case by simp
next
  case (Cons p pre)
  then show ?case
    by (cases "apply_option env p m") simp_all
qed

subsection \<open>The drain loop\<close>

lemma stat_vars_update [simp]:
  "stat_vars (g\<lparr>state := a\<rparr>) = stat_vars g" "stat_vars (g\<lparr>next := b\<rparr>) = stat_vars g"
  "stat_vars (g\<lparr>step := c\<rparr>) = stat_vars g" "stat_vars (g\<lparr>delta := d\<rparr>) = stat_vars g"
  "stat_vars (g\<lparr>lag := e\<rparr>) = stat_vars g" "stat_vars (g\<lparr>options := f\<rparr>) = stat_vars g"
  by (simp_all add: stat_vars_def)

lemma drain_round_keeps:
  "state (ctl (drain_round env s m)) = state (ctl m)"
  "step (ctl (drain_round env s m)) = step (ctl m)"
  "delta (ctl (drain_round env s m)) = delta (ctl m)"
  "stat_vars (ctl (drain_round env s m)) = stat_vars (ctl m)"
  "lag (ctl (drain_round env s m)) = lag (ctl m) - step (ctl m)"
  "trace (drain_round env s m) = trace m @ [Call (React s), Call (Update s)]"
  by (simp_all add: drain_round_def invoke_keeps)

lemma asked_drain_round: "\<exists>rs. asked m (drain_round env s m) rs"
proof -
  let ?m0 = "m\<lparr>ctl := (ctl m)\<lparr>lag := lag (ctl m) - step (ctl m)\<rparr>\<rparr>"
  have 0: "asked m ?m0 []" by (rule asked_same) simp_all
  obtain rs1 where 1: "asked ?m0 (invoke env (React s) ?m0) rs1"
    using asked_invoke by blast
  obtain rs2 where 2: "asked (invoke env (React s) ?m0) (drain_round env s m) rs2"
    unfolding drain_round_def using asked_invoke by blast
  from asked_trans [OF asked_trans [OF 0 1] 2] show ?thesis by blast
qed

lemma rounds_keeps:
  "state (ctl ((drain_round env s ^^ n) m)) = state (ctl m)"
  "step (ctl ((drain_round env s ^^ n) m)) = step (ctl m)"
  "delta (ctl ((drain_round env s ^^ n) m)) = delta (ctl m)"
  "stat_vars (ctl ((drain_round env s ^^ n) m)) = stat_vars (ctl m)"
  by (induction n; simp add: drain_round_keeps)+

lemma rounds_lag:
  "lag (ctl ((drain_round env s ^^ n) m)) = lag (ctl m) - word_of_nat n * step (ctl m)"
  by (induction n) (simp_all add: drain_round_keeps rounds_keeps algebra_simps)

lemma concat_replicate_snoc: "concat (replicate (Suc n) xs) = concat (replicate n xs) @ xs"
  by (induction n) simp_all

lemma rounds_trace:
  "trace ((drain_round env s ^^ n) m)
     = trace m @ concat (replicate n [Call (React s), Call (Update s)])"
proof (induction n)
  case 0
  show ?case by simp
next
  case (Suc n)
  have "trace ((drain_round env s ^^ Suc n) m)
      = trace ((drain_round env s ^^ n) m) @ [Call (React s), Call (Update s)]"
    by (simp add: drain_round_keeps)
  also have "\<dots> = trace m @ (concat (replicate n [Call (React s), Call (Update s)])
      @ [Call (React s), Call (Update s)])"
    by (simp add: Suc)
  also have "concat (replicate n [Call (React s), Call (Update s)]) @ [Call (React s), Call (Update s)]
      = concat (replicate (Suc n) [Call (React s), Call (Update s)])"
    by (rule concat_replicate_snoc [symmetric])
  finally show ?case .
qed

lemma asked_rounds: "\<exists>rs. asked m ((drain_round env s ^^ n) m) rs"
proof (induction n)
  case 0
  have "asked m m []" by (rule asked_same) simp_all
  then show ?case by auto
next
  case (Suc n)
  then obtain rs where 1: "asked m ((drain_round env s ^^ n) m) rs" by blast
  obtain rs' where 2: "asked ((drain_round env s ^^ n) m) ((drain_round env s ^^ Suc n) m) rs'"
    using asked_drain_round [of "(drain_round env s ^^ n) m" env s] by auto
  from asked_trans [OF 1 2] show ?case by blast
qed

lemma drain_stop: "\<not> step (ctl m) \<le>s lag (ctl m) \<Longrightarrow> drain env m = Some (Ok m)"
  by (subst drain.simps) simp

lemma drain_step:
  assumes "state (ctl m) = Some s" and "step (ctl m) \<le>s lag (ctl m)"
  shows "drain env m = drain env (drain_round env s m)"
  using assms
  by (subst drain.simps) (simp add: on_state_def invoke_keeps drain_round_def)

lemma drain_panic:
  assumes "state (ctl m) = None" and "step (ctl m) \<le>s lag (ctl m)"
  shows "drain env m = Some (Panic (m\<lparr>ctl := (ctl m)\<lparr>lag := lag (ctl m) - step (ctl m)\<rparr>\<rparr>))"
  using assms
  by (subst drain.simps) (simp add: on_state_def)

text \<open>Whenever the drain loop ends, it has made some number of rounds, each with
  \<open>lag >= step\<close> before it, and \<open>lag < step\<close> holds at the end.\<close>

lemma drain_rounds:
  assumes "drain env m = Some r"
  shows "state (ctl m) = Some s \<longrightarrow> (\<exists>n. r = Ok ((drain_round env s ^^ n) m)
    \<and> \<not> step (ctl m) \<le>s lag (ctl ((drain_round env s ^^ n) m))
    \<and> (\<forall>k<n. step (ctl m) \<le>s lag (ctl ((drain_round env s ^^ k) m))))"
  using assms
proof (induction env m r rule: drain.raw_induct [rotated 1, consumes 1, case_names 1])
  case (1 drain' env m r)
  show ?case
  proof (intro impI, cases "step (ctl m) \<le>s lag (ctl m)")
    assume st0: "state (ctl m) = Some s"
    case False
    with "1.hyps" have "r = Ok m" by simp
    with False have "r = Ok ((drain_round env s ^^ 0) m)
      \<and> \<not> step (ctl m) \<le>s lag (ctl ((drain_round env s ^^ 0) m))
      \<and> (\<forall>k<0. step (ctl m) \<le>s lag (ctl ((drain_round env s ^^ k) m)))"
      by simp
    then show "\<exists>n. r = Ok ((drain_round env s ^^ n) m)
      \<and> \<not> step (ctl m) \<le>s lag (ctl ((drain_round env s ^^ n) m))
      \<and> (\<forall>k<n. step (ctl m) \<le>s lag (ctl ((drain_round env s ^^ k) m)))" by blast
  next
    assume st0: "state (ctl m) = Some s"
    case True
    let ?m' = "drain_round env s m"
    from True "1.hyps" st0 have rec: "drain' env ?m' = Some r"
      by (simp add: on_state_def invoke_keeps drain_round_def)
    have st: "state (ctl ?m') = Some s"
      using st0 by (simp add: drain_round_keeps)
    from "1.IH" [OF rec] st obtain n where n: "r = Ok ((drain_round env s ^^ n) ?m')"
      "\<not> step (ctl ?m') \<le>s lag (ctl ((drain_round env s ^^ n) ?m'))"
      "\<forall>k<n. step (ctl ?m') \<le>s lag (ctl ((drain_round env s ^^ k) ?m'))"
      by blast
    have sw: "(drain_round env s ^^ k) ?m' = (drain_round env s ^^ Suc k) m" for k
      by (simp add: funpow_swap1)
    have "\<forall>k<Suc n. step (ctl m) \<le>s lag (ctl ((drain_round env s ^^ k) m))"
    proof (intro allI impI)
      fix k assume "k < Suc n"
      show "step (ctl m) \<le>s lag (ctl ((drain_round env s ^^ k) m))"
      proof (cases k)
        case 0
        with True show ?thesis by simp
      next
        case (Suc j)
        with \<open>k < Suc n\<close> have "j < n" by simp
        with n(3) have "step (ctl ?m') \<le>s lag (ctl ((drain_round env s ^^ j) ?m'))" by blast
        then show ?thesis
          unfolding sw Suc by (simp add: drain_round_keeps)
      qed
    qed
    moreover have "r = Ok ((drain_round env s ^^ Suc n) m)"
      using n(1) unfolding sw .
    moreover have "\<not> step (ctl m) \<le>s lag (ctl ((drain_round env s ^^ Suc n) m))"
      using n(2) unfolding sw by (simp add: drain_round_keeps)
    ultimately show "\<exists>n. r = Ok ((drain_round env s ^^ n) m)
      \<and> \<not> step (ctl m) \<le>s lag (ctl ((drain_round env s ^^ n) m))
      \<and> (\<forall>k<n. step (ctl m) \<le>s lag (ctl ((drain_round env s ^^ k) m)))" by blast
  qed
qed

lemma sint_sub_no_wrap:
  fixes a b :: duration
  assumes "0 <s b" and "b \<le>s a"
  shows "sint (a - b) = sint a - sint b"
proof -
  from assms have b: "0 < sint b" "sint b \<le> sint a"
    by (simp_all add: word_sless_alt word_sle_eq)
  have "sint a < 2 ^ 63"
    using sint_lt [of a] by simp
  with b have "- (2 ^ 63) \<le> sint a - sint b" "sint a - sint b < 2 ^ 63"
    by simp_all
  then have "signed_take_bit 63 (sint a - sint b) = sint a - sint b"
    by (rule signed_take_bit_int_eq_self)
  then show ?thesis
    by (simp add: sint_word_ariths)
qed

text \<open>With a positive step and a lag that is not negative, the drain loop ends.\<close>

lemma drain_terminates:
  assumes "state (ctl m) = Some s" and "0 <s step (ctl m)" and "0 \<le>s lag (ctl m)"
  shows "\<exists>n. drain env m = Some (Ok ((drain_round env s ^^ n) m))
    \<and> 0 \<le>s lag (ctl ((drain_round env s ^^ n) m))
    \<and> lag (ctl ((drain_round env s ^^ n) m)) <s step (ctl m)
    \<and> sint (lag (ctl m)) = int n * sint (step (ctl m)) + sint (lag (ctl ((drain_round env s ^^ n) m)))"
  using assms
proof (induction "nat (sint (lag (ctl m)))" arbitrary: m rule: less_induct)
  case less
  show ?case
  proof (cases "step (ctl m) \<le>s lag (ctl m)")
    case False
    then have "drain env m = Some (Ok ((drain_round env s ^^ 0) m))"
      by (simp add: drain_stop)
    moreover from False have "lag (ctl m) <s step (ctl m)"
      by (simp add: word_sless_alt word_sle_eq)
    ultimately have "drain env m = Some (Ok ((drain_round env s ^^ 0) m))
      \<and> 0 \<le>s lag (ctl ((drain_round env s ^^ 0) m))
      \<and> lag (ctl ((drain_round env s ^^ 0) m)) <s step (ctl m)
      \<and> sint (lag (ctl m)) = int 0 * sint (step (ctl m)) + sint (lag (ctl ((drain_round env s ^^ 0) m)))"
      using less.prems by simp
    then show ?thesis by blast
  next
    case True
    let ?m' = "drain_round env s m"
    have sub: "sint (lag (ctl ?m')) = sint (lag (ctl m)) - sint (step (ctl m))"
      using sint_sub_no_wrap [OF less.prems(2) True] by (simp add: drain_round_keeps)
    have pos: "0 < sint (step (ctl m))" "sint (step (ctl m)) \<le> sint (lag (ctl m))"
      using less.prems(2) True by (simp_all add: word_sless_alt word_sle_eq)
    have dec: "nat (sint (lag (ctl ?m'))) < nat (sint (lag (ctl m)))"
      using sub pos by simp
    have st: "state (ctl ?m') = Some s" "0 <s step (ctl ?m')" "0 \<le>s lag (ctl ?m')"
      using less.prems sub pos by (simp_all add: drain_round_keeps word_sle_eq)
    from less.hyps [OF dec st] obtain n where
      n: "drain env ?m' = Some (Ok ((drain_round env s ^^ n) ?m'))"
        "0 \<le>s lag (ctl ((drain_round env s ^^ n) ?m'))"
        "lag (ctl ((drain_round env s ^^ n) ?m')) <s step (ctl ?m')"
        "sint (lag (ctl ?m')) = int n * sint (step (ctl ?m')) + sint (lag (ctl ((drain_round env s ^^ n) ?m')))"
      by blast
    have sw: "(drain_round env s ^^ n) ?m' = (drain_round env s ^^ Suc n) m"
      by (simp add: funpow_swap1)
    have "drain env m = drain env ?m'"
      by (rule drain_step [OF less.prems(1) True])
    also have "\<dots> = Some (Ok ((drain_round env s ^^ Suc n) m))"
      using n(1) by (simp only: sw)
    finally have "drain env m = Some (Ok ((drain_round env s ^^ Suc n) m))" .
    moreover have "0 \<le>s lag (ctl ((drain_round env s ^^ Suc n) m))"
      using n(2) unfolding sw .
    moreover have "lag (ctl ((drain_round env s ^^ Suc n) m)) <s step (ctl m)"
      using n(3) unfolding sw by (simp add: drain_round_keeps)
    moreover have "sint (lag (ctl m)) = int (Suc n) * sint (step (ctl m)) + sint (lag (ctl ((drain_round env s ^^ Suc n) m)))"
      using n(4) sub unfolding sw by (simp add: drain_round_keeps algebra_simps)
    ultimately show ?thesis by blast
  qed
qed

subsection \<open>The phases of an iteration\<close>

lemma catch_up_keeps:
  "state (ctl (catch_up env s m)) = state (ctl m)"
  "step (ctl (catch_up env s m)) = step (ctl m)"
  "delta (ctl (catch_up env s m)) = delta (ctl m)"
  "lag (ctl (catch_up env s m)) = lag (ctl m)"
  "stat_vars (ctl (catch_up env s m)) = stat_vars (ctl m)"
  "trace (catch_up env s m)
     = trace m @ (if lag (ctl m) <s step (ctl m) then [Call (React s)] else [])"
  by (simp_all add: catch_up_def invoke_keeps)

lemma asked_catch_up: "\<exists>rs. asked m (catch_up env s m) rs"
proof (cases "lag (ctl m) <s step (ctl m)")
  case True
  with asked_invoke [of m env "React s"] show ?thesis
    by (simp add: catch_up_def)
next
  case False
  have "asked m m []" by (rule asked_same) simp_all
  with False show ?thesis
    by (auto simp: catch_up_def)
qed

lemma react_update_rounds:
  assumes "react_update env m = Some r" and "state (ctl m) = Some s"
  shows "\<exists>n. r = Ok ((drain_round env s ^^ n) (catch_up env s m))
    \<and> \<not> step (ctl m) \<le>s lag (ctl ((drain_round env s ^^ n) (catch_up env s m)))
    \<and> (lag (ctl m) <s step (ctl m) \<longrightarrow> n = 0)
    \<and> (\<not> lag (ctl m) <s step (ctl m) \<longrightarrow> 0 < n)"
proof -
  let ?m1 = "catch_up env s m"
  have d: "drain env ?m1 = Some r"
    using assms by (auto simp: react_update_def on_state_def catch_up_def split: if_splits)
  have st: "state (ctl ?m1) = Some s" and sp: "step (ctl ?m1) = step (ctl m)"
    and lg: "lag (ctl ?m1) = lag (ctl m)"
    using assms(2) by (simp_all add: catch_up_keeps)
  from drain_rounds [OF d] st obtain n where n: "r = Ok ((drain_round env s ^^ n) ?m1)"
    "\<not> step (ctl ?m1) \<le>s lag (ctl ((drain_round env s ^^ n) ?m1))"
    "\<forall>k<n. step (ctl ?m1) \<le>s lag (ctl ((drain_round env s ^^ k) ?m1))"
    by blast
  have z: "n = 0" if "lag (ctl m) <s step (ctl m)"
  proof (rule ccontr)
    assume "n \<noteq> 0"
    then have "0 < n" by simp
    with n(3) have "step (ctl ?m1) \<le>s lag (ctl ((drain_round env s ^^ 0) ?m1))" by blast
    with that show False
      by (simp add: sp lg word_sless_alt word_sle_eq)
  qed
  have p: "0 < n" if "\<not> lag (ctl m) <s step (ctl m)"
  proof (rule ccontr)
    assume "\<not> 0 < n"
    then have "n = 0" by simp
    with n(2) that show False
      by (simp add: sp lg word_sless_alt word_sle_eq)
  qed
  note n(2) [unfolded sp]
  with n(1) z p show ?thesis
    by blast
qed

lemma record_frame_keeps:
  "state (record_frame e g) = state g" "next (record_frame e g) = next g"
  "step (record_frame e g) = step g" "delta (record_frame e g) = e"
  "lag (record_frame e g) = lag g" "options (record_frame e g) = options g"
  by (simp_all add: record_frame_def stats_keeps)

lemma measure_frame_keeps:
  "state (measure_frame e g) = state g" "next (measure_frame e g) = next g"
  "step (measure_frame e g) = step g" "options (measure_frame e g) = options g"
  "stat_vars (measure_frame e g) = stat_vars (record_frame e g)"
  by (simp_all add: measure_frame_def Let_def record_frame_keeps)

lemma stat_vars_record_frame:
  "stat_vars g = stat_vars g' \<Longrightarrow> stat_vars (record_frame e g) = stat_vars (record_frame e g')"
  by (simp add: stat_vars_def record_frame_def stats_def Let_def)

lemma frame_end_keeps:
  "state (ctl (frame_end env s e m)) = state (ctl m)"
  "step (ctl (frame_end env s e m)) = step (ctl m)"
  "trace (frame_end env s e m) = trace m @ [Call (Render s)]"
  by (simp_all add: frame_end_def measure_frame_keeps invoke_keeps)

lemma frame_end_stat_vars:
  "stat_vars (ctl (frame_end env s e m)) = stat_vars (record_frame e (ctl m))"
proof -
  have "stat_vars (ctl (frame_end env s e m))
      = stat_vars (record_frame e (ctl (invoke env (Render s) m)))"
    by (simp add: frame_end_def measure_frame_keeps)
  also have "\<dots> = stat_vars (record_frame e (ctl m))"
    by (rule stat_vars_record_frame) (simp add: invoke_keeps)
  finally show ?thesis .
qed

lemma asked_frame_end: "\<exists>rs. asked m (frame_end env s e m) rs"
proof -
  obtain rs where 1: "asked m (invoke env (Render s) m) rs"
    using asked_invoke by blast
  have 2: "asked (invoke env (Render s) m) (frame_end env s e m) []"
    unfolding frame_end_def by (rule asked_same) (simp_all add: measure_frame_keeps)
  from asked_trans [OF 1 2] show ?thesis by blast
qed

lemma render_measure_Some:
  "state (ctl m) = Some s \<Longrightarrow> render_measure env e m = Ok (frame_end env s e m)"
  by (simp add: render_measure_def on_state_def frame_end_def)

lemma promote_keeps:
  "state (ctl (promote m)) = next (ctl m)" "next (ctl (promote m)) = next (ctl m)"
  "step (ctl (promote m)) = step (ctl m)" "delta (ctl (promote m)) = delta (ctl m)"
  "lag (ctl (promote m)) = lag (ctl m)" "options (ctl (promote m)) = options (ctl m)"
  "stat_vars (ctl (promote m)) = stat_vars (ctl m)"
  "trace (promote m) = trace m" "issued (promote m) = issued m"
  by (simp_all add: promote_def)

text \<open>An iteration that completes, phase by phase.\<close>

lemma iteration_Ok:
  assumes "next (ctl m) = Some s" and "iteration env e m = Some (Ok m')"
  obtains m1 n where "apply_options env (options (ctl m)) (promote m) = Ok m1"
    and "m' = frame_end env s e ((drain_round env s ^^ n) (catch_up env s m1))"
    and "\<not> step (ctl m1) \<le>s lag (ctl ((drain_round env s ^^ n) (catch_up env s m1)))"
    and "lag (ctl m1) <s step (ctl m1) \<longrightarrow> n = 0"
    and "\<not> lag (ctl m1) <s step (ctl m1) \<longrightarrow> 0 < n"
proof -
  from assms(2) obtain m1 where 1: "apply_options env (options (ctl m)) (promote m) = Ok m1"
    by (cases "apply_options env (options (ctl m)) (promote m)")
       (simp_all add: iteration_def Let_def promote_keeps)
  from apply_options_Ok [OF 1] assms(1) have st1: "state (ctl m1) = Some s"
    by (simp add: promote_keeps)
  have it: "(case react_update env m1 of None \<Rightarrow> None
      | Some (Ok m2) \<Rightarrow> Some (render_measure env e m2)
      | Some (Failed x m2) \<Rightarrow> Some (Failed x m2)
      | Some (Panic m2) \<Rightarrow> Some (Panic m2)) = Some (Ok m')"
    using assms(2) 1 by (simp add: iteration_def Let_def promote_keeps)
  then obtain r where r: "react_update env m1 = Some r"
    by (cases "react_update env m1") simp_all
  from react_update_rounds [OF r st1] obtain n where
    n: "r = Ok ((drain_round env s ^^ n) (catch_up env s m1))"
      "\<not> step (ctl m1) \<le>s lag (ctl ((drain_round env s ^^ n) (catch_up env s m1)))"
      "lag (ctl m1) <s step (ctl m1) \<longrightarrow> n = 0" "\<not> lag (ctl m1) <s step (ctl m1) \<longrightarrow> 0 < n"
    by blast
  define m2 where "m2 = (drain_round env s ^^ n) (catch_up env s m1)"
  have 3: "render_measure env e m2 = Ok m'"
    using it r n(1) by (simp add: m2_def)
  have "state (ctl m2) = Some s"
    unfolding m2_def using st1 by (simp add: rounds_keeps catch_up_keeps)
  from render_measure_Some [OF this, of env e] 3
  have "m' = frame_end env s e m2"
    by simp
  with 1 n(2,3,4) that show ?thesis
    unfolding m2_def by blast
qed

lemma iteration_facts:
  assumes "next (ctl m) = Some s" and "iteration env e m = Some (Ok m')"
  shows "state (ctl m') = Some s"
    and "stat_vars (ctl m') = stat_vars (record_frame e (ctl m))"
    and "\<exists>rs. asked m m' rs"
proof -
  from assms obtain m1 n where
    1: "apply_options env (options (ctl m)) (promote m) = Ok m1"
    and m': "m' = frame_end env s e ((drain_round env s ^^ n) (catch_up env s m1))"
    by (rule iteration_Ok)
  let ?p = "catch_up env s m1"
  let ?d = "(drain_round env s ^^ n) ?p"
  from apply_options_Ok [OF 1] obtain rs1 where k1: "state (ctl m1) = next (ctl m)"
    "stat_vars (ctl m1) = stat_vars (ctl m)" and a1: "asked (promote m) m1 rs1"
    by (auto simp: promote_keeps)
  show "state (ctl m') = Some s"
    unfolding m' using k1 assms(1)
    by (simp add: frame_end_keeps rounds_keeps catch_up_keeps)
  have "stat_vars (ctl ?d) = stat_vars (ctl m)"
    using k1 by (simp add: rounds_keeps catch_up_keeps)
  then have "stat_vars (record_frame e (ctl ?d)) = stat_vars (record_frame e (ctl m))"
    by (rule stat_vars_record_frame)
  then show "stat_vars (ctl m') = stat_vars (record_frame e (ctl m))"
    unfolding m' by (simp add: frame_end_stat_vars)
  have a0: "asked m (promote m) []"
    by (rule asked_same) (simp_all add: promote_keeps)
  obtain rs2 where a2: "asked m1 ?p rs2"
    using asked_catch_up [where m = m1 and env = env and s = s] by blast
  obtain rs3 where a3: "asked ?p ?d rs3"
    using asked_rounds [where m = "?p" and env = env and s = s and n = n] by blast
  obtain rs4 where a4: "asked ?d m' rs4"
    unfolding m' using asked_frame_end [where m = "?d" and env = env and s = s and e = e] by blast
  from asked_trans [OF asked_trans [OF asked_trans [OF asked_trans [OF a0 a1] a2] a3] a4]
  show "\<exists>rs. asked m m' rs" by blast
qed

lemma iteration_trace:
  assumes "next (ctl m) = Some s" and "iteration env e m = Some (Ok m')"
  shows "\<exists>m1 n. apply_options env (options (ctl m)) (promote m) = Ok m1
    \<and> trace m' = trace m @ map Apply (options (ctl m))
        @ (if lag (ctl m1) <s step (ctl m1) then [Call (React s)] else [])
        @ concat (replicate n [Call (React s), Call (Update s)]) @ [Call (Render s)]
    \<and> (lag (ctl m1) <s step (ctl m1) \<longrightarrow> n = 0)
    \<and> (\<not> lag (ctl m1) <s step (ctl m1) \<longrightarrow> 0 < n)"
proof -
  from assms obtain m1 n where
    1: "apply_options env (options (ctl m)) (promote m) = Ok m1"
    and m': "m' = frame_end env s e ((drain_round env s ^^ n) (catch_up env s m1))"
    and n: "lag (ctl m1) <s step (ctl m1) \<longrightarrow> n = 0" "\<not> lag (ctl m1) <s step (ctl m1) \<longrightarrow> 0 < n"
    by (rule iteration_Ok)
  from apply_options_Ok [OF 1] have t1: "trace m1 = trace m @ map Apply (options (ctl m))"
    by (simp add: promote_keeps)
  have "trace m' = trace m @ map Apply (options (ctl m))
        @ (if lag (ctl m1) <s step (ctl m1) then [Call (React s)] else [])
        @ concat (replicate n [Call (React s), Call (Update s)]) @ [Call (Render s)]"
    unfolding m' by (simp add: frame_end_keeps rounds_trace catch_up_keeps t1)
  with 1 n show ?thesis
    by (intro exI [of _ m1] exI [of _ n] conjI)
qed

subsection \<open>Iterations that do not complete\<close>

lemma iteration_Failed:
  assumes "next (ctl m) = Some s" and "iteration env e m = Some (Failed x m')"
  shows "apply_options env (options (ctl m)) (promote m) = Failed x m'"
proof (cases "apply_options env (options (ctl m)) (promote m)")
  case (Ok m1)
  from apply_options_Ok [OF Ok] assms(1) have st1: "state (ctl m1) = Some s"
    by (simp add: promote_keeps)
  have it: "(case react_update env m1 of None \<Rightarrow> None
      | Some (Ok m2) \<Rightarrow> Some (render_measure env e m2)
      | Some (Failed x m2) \<Rightarrow> Some (Failed x m2)
      | Some (Panic m2) \<Rightarrow> Some (Panic m2)) = Some (Failed x m')"
    using assms(2) Ok by (simp add: iteration_def Let_def promote_keeps)
  then obtain r where r: "react_update env m1 = Some r"
    by (cases "react_update env m1") simp_all
  from react_update_rounds [OF r st1] obtain n where
    n: "r = Ok ((drain_round env s ^^ n) (catch_up env s m1))"
    by blast
  have "state (ctl ((drain_round env s ^^ n) (catch_up env s m1))) = Some s"
    using st1 by (simp add: rounds_keeps catch_up_keeps)
  from render_measure_Some [OF this, of env e] it r n show ?thesis
    by simp
next
  case (Failed y m1)
  with assms(2) show ?thesis
    by (simp add: iteration_def Let_def promote_keeps)
next
  case (Panic m1)
  with apply_options_not_Panic show ?thesis by blast
qed

lemma iteration_fails:
  "apply_options env (options (ctl m)) (promote m) = Failed x m'
     \<Longrightarrow> iteration env e m = Some (Failed x m')"
  by (simp add: iteration_def Let_def promote_keeps)

lemma iteration_not_Panic:
  assumes "next (ctl m) = Some s"
  shows "iteration env e m \<noteq> Some (Panic m')"
proof (cases "apply_options env (options (ctl m)) (promote m)")
  case (Ok m1)
  from apply_options_Ok [OF Ok] assms(1) have st1: "state (ctl m1) = Some s"
    by (simp add: promote_keeps)
  show ?thesis
  proof (cases "react_update env m1")
    case None
    with Ok show ?thesis
      by (simp add: iteration_def Let_def promote_keeps)
  next
    case (Some r)
    from react_update_rounds [OF Some st1] obtain n where
      n: "r = Ok ((drain_round env s ^^ n) (catch_up env s m1))"
      by blast
    have "state (ctl ((drain_round env s ^^ n) (catch_up env s m1))) = Some s"
      using st1 by (simp add: rounds_keeps catch_up_keeps)
    from render_measure_Some [OF this, of env e] Ok Some n show ?thesis
      by (simp add: iteration_def Let_def promote_keeps)
  qed
next
  case (Failed y m1)
  then show ?thesis
    by (simp add: iteration_def Let_def promote_keeps)
next
  case (Panic m1)
  with apply_options_not_Panic show ?thesis by blast
qed

subsection \<open>The loop\<close>

lemma loop_exit: "next (ctl m) = None \<Longrightarrow> loop env m es = Some (leave env m)"
  by (cases es) simp_all

lemma loop_iterate:
  "next (ctl m) = Some s \<Longrightarrow> iteration env e m = Some (Ok m1)
     \<Longrightarrow> loop env m (e # es) = loop env m1 es"
  by simp

lemma loop_fail:
  "next (ctl m) = Some s \<Longrightarrow> iteration env e m = Some (Failed x m')
     \<Longrightarrow> loop env m (e # es) = Some (Returned (Some (OptionError x)) m')"
  by simp

text \<open>A run that waits for the clock takes up where it stopped when the clock goes on.\<close>

lemma loop_append:
  "loop env m es1 = Some (Waiting m') \<Longrightarrow> loop env m (es1 @ es2) = loop env m' es2"
proof (induction es1 arbitrary: m)
  case Nil
  then show ?case
    by (simp add: leave_def split: if_splits result.splits)
next
  case (Cons e es1)
  show ?case
  proof (cases "next (ctl m)")
    case None
    with Cons.prems show ?thesis
      by (simp add: leave_def split: result.splits)
  next
    case (Some s)
    show ?thesis
    proof (cases "iteration env e m")
      case None
      with Some Cons.prems show ?thesis by simp
    next
      case (Some r)
      then show ?thesis
        using \<open>next (ctl m) = Some s\<close> Cons.prems Cons.IH
        by (cases r) simp_all
    qed
  qed
qed

lemma loop_Waiting_next: "loop env m es = Some (Waiting m') \<Longrightarrow> next (ctl m') \<noteq> None"
proof (induction es arbitrary: m)
  case Nil
  then show ?case
    by (simp add: leave_def split: if_splits result.splits)
next
  case (Cons e es)
  show ?case
  proof (cases "next (ctl m)")
    case None
    with Cons.prems show ?thesis
      by (simp add: leave_def split: result.splits)
  next
    case (Some s)
    show ?thesis
    proof (cases "iteration env e m")
      case None
      with Some Cons.prems show ?thesis by simp
    next
      case (Some r)
      then show ?thesis
        using \<open>next (ctl m) = Some s\<close> Cons.prems Cons.IH
        by (cases r) simp_all
    qed
  qed
qed

lemma Run_idle:
  "state (ctl m) = None \<Longrightarrow> Run env (Some s) m es = loop env (primed env s m) es"
  by (simp add: Run_def primed_def Let_def)

lemma Run_Waiting:
  assumes "Run env start m0 es = Some (Waiting m)"
  obtains s where "state (ctl m0) = None" and "start = Some s"
    and "loop env (primed env s m0) es = Some (Waiting m)"
proof -
  from assms have 1: "state (ctl m0) = None"
    by (simp add: Run_def split: if_splits)
  with assms obtain s where 2: "start = Some s"
    by (cases start) (simp_all add: Run_def)
  from assms 1 2 Run_idle [OF 1, of env s es] that show ?thesis
    by simp
qed

lemma Run_append:
  assumes "Run env start m0 es1 = Some (Waiting m)"
  shows "Run env start m0 (es1 @ es2) = loop env m es2"
proof -
  from assms obtain s where 1: "state (ctl m0) = None" "start = Some s"
    "loop env (primed env s m0) es1 = Some (Waiting m)"
    by (rule Run_Waiting)
  have "Run env start m0 (es1 @ es2) = loop env (primed env s m0) (es1 @ es2)"
    unfolding 1(2) by (rule Run_idle [OF 1(1)])
  also have "\<dots> = loop env m es2"
    by (rule loop_append [OF 1(3)])
  finally show ?thesis .
qed

subsection \<open>The windows of the statistics\<close>

lemma window_overruns_snoc:
  "window_overruns (cur @ [d]) =
     (if xrunThreshold <s d then window_overruns cur + 1 else window_overruns cur)"
  by (simp add: window_overruns_def)

lemma record_frames_window:
  assumes "interval_time g = sum_list cur"
    and "interval_frames g = word_of_nat (length cur)"
    and "interval_xruns g = window_overruns cur"
    and "window_vars g = published done"
  shows "window_vars (record_frames ds g) = published (last_window cur done ds)"
  using assms
proof (induction ds arbitrary: g cur "done")
  case Nil
  then show ?case by simp
next
  case (Cons d ds)
  let ?g = "record_frame d g"
  show ?case
  proof (cases "statsInterval \<le>s sum_list (cur @ [d])")
    case True
    have "window_vars (record_frames ds ?g) = published (last_window [] (Some (cur @ [d])) ds)"
    proof (rule Cons.IH)
      show "interval_time ?g = sum_list []"
        using True Cons.prems by (simp add: record_frame_def stats_def Let_def)
      show "interval_frames ?g = word_of_nat (length ([] :: duration list))"
        using True Cons.prems by (simp add: record_frame_def stats_def Let_def)
      show "interval_xruns ?g = window_overruns []"
        using True Cons.prems by (simp add: record_frame_def stats_def Let_def window_overruns_def)
      show "window_vars ?g = published (Some (cur @ [d]))"
        using True Cons.prems
        by (simp add: record_frame_def stats_def Let_def published_def window_vars_def
            window_frametime_def window_overruns_snoc add.commute)
    qed
    with True show ?thesis by simp
  next
    case False
    have "window_vars (record_frames ds ?g) = published (last_window (cur @ [d]) done ds)"
    proof (rule Cons.IH)
      show "interval_time ?g = sum_list (cur @ [d])"
        using False Cons.prems by (simp add: record_frame_def stats_def Let_def)
      show "interval_frames ?g = word_of_nat (length (cur @ [d]))"
        using False Cons.prems by (simp add: record_frame_def stats_def Let_def)
      show "interval_xruns ?g = window_overruns (cur @ [d])"
        using False Cons.prems
        by (simp add: record_frame_def stats_def Let_def window_overruns_snoc)
      show "window_vars ?g = published done"
        using False Cons.prems
        by (simp add: record_frame_def stats_def Let_def window_vars_def)
    qed
    with False show ?thesis by simp
  qed
qed


lemma apply_option_Failed_stats:
  assumes "apply_option env opt m = Failed x m'"
  shows "stat_vars (ctl m') = stat_vars (ctl m)"
proof (cases opt)
  case (TimeStep d)
  with assms show ?thesis by simp
next
  case (Custom c)
  obtain rs err w where cu: "custom env c (ctl m) (usr m) = (rs, err, w)"
    by (cases "custom env c (ctl m) (usr m)") auto
  with assms Custom have m': "m' = m\<lparr>ctl := perform_all rs (ctl m), usr := w,
      trace := trace m @ [Apply (Custom c)], issued := issued m @ rs\<rparr>"
    by (simp_all add: Let_def split: option.splits)
  then show ?thesis
    by (simp add: perform_all_keeps stat_vars_def)
qed

lemma primed_keeps:
  "state (ctl (primed env s m)) = state (ctl m)"
  "next (ctl (primed env s m)) = Some s"
  "stat_vars (ctl (primed env s m)) = stat_vars (ctl m)"
  "trace (primed env s m) = trace m @ [Call (Enter s), Call (React s), Call (Update s)]"
  by (simp_all add: primed_def Let_def invoke_keeps)

subsection \<open>Leaving\<close>

lemma leave_Some:
  "state (ctl m) = Some s \<Longrightarrow>
     leave env m = Returned None
       ((invoke env (Leave s) m)\<lparr>ctl := (ctl (invoke env (Leave s) m))\<lparr>state := None\<rparr>\<rparr>)"
  by (simp add: leave_def on_state_def)

lemma leave_None: "state (ctl m) = None \<Longrightarrow> leave env m = Panicked m"
  by (simp add: leave_def on_state_def)

lemma leave_stat_vars: "stat_vars (ctl (final (leave env m))) = stat_vars (ctl m)"
  by (cases "state (ctl m)") (simp_all add: leave_Some leave_None invoke_keeps)

lemma leave_Returned:
  assumes "leave env m = Returned err m'"
  obtains s where "err = None" and "state (ctl m) = Some s"
    and "trace m' = trace m @ [Call (Leave s)]" and "state (ctl m') = None"
proof (cases "state (ctl m)")
  case None
  with assms show ?thesis by (simp add: leave_None)
next
  case (Some s)
  from assms leave_Some [OF Some, of env] have "err = None"
    and "m' = (invoke env (Leave s) m)\<lparr>ctl := (ctl (invoke env (Leave s) m))\<lparr>state := None\<rparr>\<rparr>"
    by simp_all
  with Some that show ?thesis
    by (simp add: invoke_keeps)
qed

lemma leave_not_Waiting: "leave env m \<noteq> Waiting m'"
  by (simp add: leave_def split: result.split)

subsection \<open>Runs that return an error of an option\<close>

lemma loop_Returned_error:
  assumes "loop env m es = Some (Returned (Some err) m')"
  shows "state (ctl m') \<noteq> None \<and> (\<exists>x. err = OptionError x)"
  using assms
proof (induction es arbitrary: m)
  case Nil
  then show ?case
    by (auto split: if_splits elim: leave_Returned)
next
  case (Cons e es)
  show ?case
  proof (cases "next (ctl m)")
    case None
    with Cons.prems show ?thesis
      by (auto elim: leave_Returned)
  next
    case (Some s)
    show ?thesis
    proof (cases "iteration env e m")
      case None
      with Some Cons.prems show ?thesis by simp
    next
      case r: (Some r)
      show ?thesis
      proof (cases r)
        case (Ok m1)
        with r Some Cons.prems have "loop env m1 es = Some (Returned (Some err) m')" by simp
        then show ?thesis by (rule Cons.IH)
      next
        case (Failed x m1)
        with r Some Cons.prems have eq: "err = OptionError x" "m1 = m'" by simp_all
        from iteration_Failed [OF Some] r Failed eq
        have "apply_options env (options (ctl m)) (promote m) = Failed x m'" by simp
        from apply_options_Failed [OF this] obtain pre opt rest m2 where
          2: "apply_options env pre (promote m) = Ok m2" "apply_option env opt m2 = Failed x m'"
          by blast
        from apply_options_Ok [OF 2(1)] apply_option_Failed [OF 2(2)] Some
        have "state (ctl m') = Some s"
          by (simp add: promote_keeps)
        with eq show ?thesis by simp
      next
        case (Panic m1)
        with r Some Cons.prems show ?thesis by simp
      qed
    qed
  qed
qed

lemma Run_Returned_error:
  assumes "Run env start m0 es = Some (Returned (Some (OptionError x)) m')"
  shows "state (ctl m') \<noteq> None"
proof -
  from assms have 1: "state (ctl m0) = None"
    by (simp add: Run_def split: if_splits)
  with assms obtain s where 2: "start = Some s"
    by (cases start) (simp_all add: Run_def)
  from assms Run_idle [OF 1, of env s es] 2
  have "loop env (primed env s m0) es = Some (Returned (Some (OptionError x)) m')"
    by simp
  from loop_Returned_error [OF this] show ?thesis by simp
qed

text \<open>
  C10. If \<open>Run\<close> returns the error of an option, the variable \<open>state\<close> is left set:
  \<open>Running\<close> is true afterwards, and whatever requests are made in between, every later
  call of \<open>Run\<close> returns "already running" and changes nothing. So no later call can
  start the loop.
\<close>

theorem Run_after_option_error:
  assumes "Run env start m0 es = Some (Returned (Some (OptionError x)) m')"
  shows "Running (ctl m')
    \<and> (\<forall>rs env' start' es'.
          Running (perform_all rs (ctl m'))
          \<and> Run env' start' (m'\<lparr>ctl := perform_all rs (ctl m')\<rparr>) es'
              = Some (Returned (Some AlreadyRunning) (m'\<lparr>ctl := perform_all rs (ctl m')\<rparr>)))"
proof -
  from Run_Returned_error [OF assms] have "state (ctl m') \<noteq> None" .
  then show ?thesis
    by (simp add: Running_def Run_def perform_all_keeps)
qed

theorem Run_after_option_error_witness:
  "Run demo_env (Some 0) configured [20000000, 5, 7]
      = Some (Returned (Some (OptionError ''late'')) third_failed)
   \<and> Running (ctl third_failed)
   \<and> Running (perform_all [StopReq, GotoReq (Some 4)] (ctl third_failed))
   \<and> Run demo_env (Some 4)
        (third_failed\<lparr>ctl := perform_all [StopReq, GotoReq (Some 4)] (ctl third_failed)\<rparr>) [1, 2]
      = Some (Returned (Some AlreadyRunning)
          (third_failed\<lparr>ctl := perform_all [StopReq, GotoReq (Some 4)] (ctl third_failed)\<rparr>))"
proof -
  note h = configured_three
  from Run_after_option_error [OF h] h show ?thesis
    by blast
qed

text \<open>
  C3. When the run is at the top of an iteration and, of the options queued, those of
  \<open>pre\<close> succeed and the next one, \<open>opt\<close>, returns the error \<open>x\<close>, then \<open>Run\<close> returns
  that error, however long the clock goes on; the machine it leaves is the one the
  failing option left; and all that happened in the iteration is the application of the
  options up to \<open>opt\<close>: the options after it were not applied, and no \<open>React\<close>, \<open>Update\<close>,
  \<open>Render\<close> or \<open>Leave\<close> was called.
\<close>

theorem Run_option_error:
  assumes "Run env start m0 es1 = Some (Waiting m)"
    and "options (ctl m) = pre @ opt # rest"
    and "apply_options env pre (promote m) = Ok m1"
    and "apply_option env opt m1 = Failed x m'"
  shows "Run env start m0 (es1 @ e # es2) = Some (Returned (Some (OptionError x)) m')
    \<and> trace m' = trace m @ map Apply pre @ [Apply opt]
    \<and> (\<exists>c. opt = Custom c \<and> fst (snd (custom env c (ctl m1) (usr m1))) = Some x)"
proof -
  from assms(1) obtain s0 where "loop env (primed env s0 m0) es1 = Some (Waiting m)"
    by (rule Run_Waiting)
  from loop_Waiting_next [OF this] obtain s where s: "next (ctl m) = Some s"
    by auto
  from apply_options_fail_at [OF assms(3,4), of rest] assms(2)
  have "apply_options env (options (ctl m)) (promote m) = Failed x m'"
    by simp
  then have "iteration env e m = Some (Failed x m')"
    by (rule iteration_fails)
  from loop_fail [OF s this]
  have "loop env m (e # es2) = Some (Returned (Some (OptionError x)) m')" .
  with Run_append [OF assms(1), of "e # es2"]
  have 1: "Run env start m0 (es1 @ e # es2) = Some (Returned (Some (OptionError x)) m')"
    by simp
  from apply_options_Ok [OF assms(3)] apply_option_Failed [OF assms(4)]
  have 2: "trace m' = trace m @ map Apply pre @ [Apply opt]"
    and 3: "\<exists>c. opt = Custom c \<and> fst (snd (custom env c (ctl m1) (usr m1))) = Some x"
    by (simp_all add: promote_keeps)
  from 1 2 3 show ?thesis by blast
qed

theorem Run_option_error_witness:
  "Run demo_env (Some 0) configured [20000000, 5] = Some (Waiting third_top)
   \<and> options (ctl third_top) = [TimeStep 10000000] @ Custom 2 # [Custom 9]
   \<and> apply_options demo_env [TimeStep 10000000] (promote third_top) = Ok third_applied
   \<and> apply_option demo_env (Custom 2) third_applied = Failed ''late'' third_failed
   \<and> Run demo_env (Some 0) configured ([20000000, 5] @ 7 # [8, 9])
        = Some (Returned (Some (OptionError ''late'')) third_failed)
   \<and> trace third_failed
        = trace third_top @ map Apply [TimeStep 10000000] @ [Apply (Custom 2)]"
proof -
  have o: "options (ctl third_top) = [TimeStep 10000000] @ Custom 2 # [Custom 9]"
    by (simp add: third_top_def)
  from Run_option_error [OF configured_two o third_options, of 7 "[8, 9]"]
    configured_two o third_options
  show ?thesis
    by blast
qed

subsection \<open>Runs that return \<open>nil\<close>\<close>

lemma iteration_ends_with_Render:
  assumes "next (ctl m) = Some s" and "iteration env e m = Some (Ok m1)"
  obtains tr where "trace m1 = trace m @ tr @ [Call (Render s)]"
    and "\<forall>t. Call (Leave t) \<notin> set tr"
proof -
  from iteration_trace [OF assms] obtain m2 n where
    "apply_options env (options (ctl m)) (promote m) = Ok m2" and
    t: "trace m1 = trace m @ map Apply (options (ctl m))
        @ (if lag (ctl m2) <s step (ctl m2) then [Call (React s)] else [])
        @ concat (replicate n [Call (React s), Call (Update s)]) @ [Call (Render s)]"
    by blast
  let ?tr = "map Apply (options (ctl m))
        @ (if lag (ctl m2) <s step (ctl m2) then [Call (React s)] else [])
        @ concat (replicate n [Call (React s), Call (Update s)])"
  have "trace m1 = trace m @ ?tr @ [Call (Render s)]"
    using t by simp
  moreover have "\<forall>t. Call (Leave t) \<notin> set ?tr"
    by auto
  ultimately show ?thesis
    by (rule that)
qed

lemma loop_Returned_None:
  assumes "loop env m es = Some (Returned None m')"
  shows "\<exists>tr s. trace m' = trace m @ tr @ [Call (Leave s)] \<and> (\<forall>t. Call (Leave t) \<notin> set tr)
    \<and> state (ctl m') = None
    \<and> (if next (ctl m) = None then tr = [] \<and> state (ctl m) = Some s
        else (\<exists>tr'. tr = tr' @ [Call (Render s)]))"
  using assms
proof (induction es arbitrary: m)
  case Nil
  then have n: "next (ctl m) = None" and l: "leave env m = Returned None m'"
    by (simp_all split: if_splits)
  from l obtain s where "state (ctl m) = Some s" "trace m' = trace m @ [Call (Leave s)]"
    "state (ctl m') = None"
    by (rule leave_Returned)
  with n show ?case by simp
next
  case (Cons e es)
  show ?case
  proof (cases "next (ctl m)")
    case None
    with Cons.prems have l: "leave env m = Returned None m'" by simp
    from l obtain s where "state (ctl m) = Some s" "trace m' = trace m @ [Call (Leave s)]"
      "state (ctl m') = None"
      by (rule leave_Returned)
    with None show ?thesis by simp
  next
    case (Some s0)
    from Cons.prems Some obtain m1 where it: "iteration env e m = Some (Ok m1)"
      and rec: "loop env m1 es = Some (Returned None m')"
      by (auto split: option.splits result.splits)
    from Some it obtain tr0 where tr0: "trace m1 = trace m @ tr0 @ [Call (Render s0)]"
      "\<forall>t. Call (Leave t) \<notin> set tr0"
      by (rule iteration_ends_with_Render)
    from iteration_facts(1) [OF Some it] have st1: "state (ctl m1) = Some s0" .
    from Cons.IH [OF rec] obtain tr s where
      ih: "trace m' = trace m1 @ tr @ [Call (Leave s)]" "\<forall>t. Call (Leave t) \<notin> set tr"
        "state (ctl m') = None"
        "if next (ctl m1) = None then tr = [] \<and> state (ctl m1) = Some s
         else (\<exists>tr'. tr = tr' @ [Call (Render s)])"
      by blast
    have "\<exists>tr'. tr0 @ [Call (Render s0)] @ tr = tr' @ [Call (Render s)]"
    proof (cases "next (ctl m1) = None")
      case True
      with ih(4) st1 have "tr = []" "s = s0" by simp_all
      then show ?thesis by simp
    next
      case False
      with ih(4) obtain tr' where "tr = tr' @ [Call (Render s)]" by auto
      then have "tr0 @ [Call (Render s0)] @ tr = (tr0 @ [Call (Render s0)] @ tr') @ [Call (Render s)]"
        by simp
      then show ?thesis by blast
    qed
    moreover have "trace m' = trace m @ (tr0 @ [Call (Render s0)] @ tr) @ [Call (Leave s)]"
      using ih(1) tr0(1) by simp
    moreover have "\<forall>t. Call (Leave t) \<notin> set (tr0 @ [Call (Render s0)] @ tr)"
      using ih(2) tr0(2) by simp
    ultimately show ?thesis
      using ih(3) Some by auto
  qed
qed

text \<open>
  C9. When, in a run, an iteration completes and leaves the variable \<open>next\<close> empty, \<open>Run\<close>
  returns \<open>nil\<close>, however long the clock goes on. All it does after the iteration is
  call \<open>Leave\<close> on the state of that iteration (the one just rendered); that is the only
  call of \<open>Leave\<close> of the whole run; and the variable \<open>state\<close> is empty afterwards, so
  \<open>Running\<close> is false.
\<close>

theorem Run_natural_exit:
  assumes "Run env start m0 es1 = Some (Waiting m)"
    and "iteration env e m = Some (Ok m1)"
    and "next (ctl m1) = None"
  shows "\<exists>m' s tr. Run env start m0 (es1 @ e # es2) = Some (Returned None m')
    \<and> state (ctl m1) = Some s
    \<and> trace m' = trace m1 @ [Call (Leave s)]
    \<and> trace m' = trace m0 @ tr @ [Call (Render s), Call (Leave s)]
    \<and> (\<forall>t. Call (Leave t) \<notin> set tr)
    \<and> \<not> Running (ctl m')"
proof -
  from assms(1) obtain s0 where idle: "state (ctl m0) = None" and "start = Some s0"
    and w: "loop env (primed env s0 m0) es1 = Some (Waiting m)"
    by (rule Run_Waiting)
  from loop_Waiting_next [OF w] obtain s where s: "next (ctl m) = Some s"
    by auto
  from iteration_facts(1) [OF s assms(2)] have st1: "state (ctl m1) = Some s" .
  define m' where "m' = (invoke env (Leave s) m1)\<lparr>ctl := (ctl (invoke env (Leave s) m1))\<lparr>state := None\<rparr>\<rparr>"
  have "loop env m (e # es2) = loop env m1 es2"
    using s assms(2) by (rule loop_iterate)
  also have "\<dots> = Some (leave env m1)"
    using assms(3) by (rule loop_exit)
  also have "leave env m1 = Returned None m'"
    unfolding m'_def using st1 by (rule leave_Some)
  finally have "loop env m (e # es2) = Some (Returned None m')" .
  with Run_append [OF assms(1), of "e # es2"]
  have run: "Run env start m0 (es1 @ e # es2) = Some (Returned None m')"
    by simp
  have tm': "trace m' = trace m1 @ [Call (Leave s)]"
    by (simp add: m'_def invoke_keeps)
  from run Run_idle [OF idle, of env s0] \<open>start = Some s0\<close>
  have "loop env (primed env s0 m0) (es1 @ e # es2) = Some (Returned None m')"
    by simp
  from loop_Returned_None [OF this] obtain tr s' tr' where
    l: "trace m' = trace (primed env s0 m0) @ tr @ [Call (Leave s')]"
      "\<forall>t. Call (Leave t) \<notin> set tr" "tr = tr' @ [Call (Render s')]"
    by (auto simp: primed_keeps)
  from l(1) tm' have "s' = s" by simp
  with l have "trace m' = trace m0 @ ([Call (Enter s0), Call (React s0), Call (Update s0)] @ tr')
      @ [Call (Render s), Call (Leave s)]"
    and "\<forall>t. Call (Leave t) \<notin> set ([Call (Enter s0), Call (React s0), Call (Update s0)] @ tr')"
    by (simp_all add: primed_keeps)
  moreover have "\<not> Running (ctl m')"
    by (simp add: Running_def m'_def)
  ultimately show ?thesis
    using run st1 tm' by blast
qed

theorem Run_natural_exit_witness:
  "Run demo_env (Some 0) idle [20000000, 5] = Some (Waiting idle_third)
   \<and> iteration demo_env 100000000 idle_third = Some (Ok idle_rendered)
   \<and> next (ctl idle_rendered) = None
   \<and> (\<exists>m' s tr. Run demo_env (Some 0) idle ([20000000, 5] @ 100000000 # [4])
          = Some (Returned None m')
        \<and> state (ctl idle_rendered) = Some s
        \<and> trace m' = trace idle_rendered @ [Call (Leave s)]
        \<and> trace m' = trace idle @ tr @ [Call (Render s), Call (Leave s)]
        \<and> (\<forall>t. Call (Leave t) \<notin> set tr)
        \<and> \<not> Running (ctl m'))"
proof -
  have n: "next (ctl idle_rendered) = None"
    by (simp add: idle_rendered_def)
  from Run_natural_exit [OF idle_two idle_third_iteration n, of "[4]"]
    idle_two idle_third_iteration n
  show ?thesis
    by blast
qed

subsection \<open>What the variables of the statistics hold\<close>

lemma window_vars_stat_vars: "stat_vars g = stat_vars g' \<Longrightarrow> window_vars g = window_vars g'"
  by (simp add: stat_vars_def window_vars_def)

lemma stat_vars_record_frames:
  "stat_vars g = stat_vars g' \<Longrightarrow> stat_vars (record_frames ds g) = stat_vars (record_frames ds g')"
proof (induction ds arbitrary: g g')
  case Nil
  then show ?case by simp
next
  case (Cons d ds)
  from Cons.prems have "stat_vars (record_frame d g) = stat_vars (record_frame d g')"
    by (rule stat_vars_record_frame)
  then show ?case
    by (simp add: Cons.IH)
qed

lemma record_frames_append:
  "record_frames (ds @ ds') g = record_frames ds' (record_frames ds g)"
  by (induction ds arbitrary: g) simp_all

lemma window_vars_record_frames_initial: "window_vars (record_frames ds initial) = exposed ds"
  unfolding exposed_def
  by (rule record_frames_window)
     (simp_all add: initial_def window_overruns_def published_def window_vars_def)

text \<open>Every outcome of the loop has recorded a prefix of the clock, and all of it when
  the run waits for the clock.\<close>

lemma loop_stat_vars:
  assumes "loop env m es = Some out"
  shows "\<exists>k\<le>length es. stat_vars (ctl (final out)) = stat_vars (record_frames (take k es) (ctl m))
    \<and> (\<forall>m'. out = Waiting m' \<longrightarrow> k = length es)"
  using assms
proof (induction es arbitrary: m)
  case Nil
  then show ?case
    by (auto simp: leave_stat_vars split: if_splits)
next
  case (Cons e es)
  show ?case
  proof (cases "next (ctl m)")
    case None
    with Cons.prems have out: "out = leave env m" by simp
    have "stat_vars (ctl (final out)) = stat_vars (record_frames (take 0 (e # es)) (ctl m))"
      by (simp add: out leave_stat_vars)
    moreover have "\<forall>m'. out = Waiting m' \<longrightarrow> 0 = length (e # es)"
      by (simp add: out leave_not_Waiting)
    ultimately show ?thesis by blast
  next
    case (Some s)
    show ?thesis
    proof (cases "iteration env e m")
      case None
      with Some Cons.prems show ?thesis by simp
    next
      case r: (Some r)
      show ?thesis
      proof (cases r)
        case (Ok m1)
        with r Some Cons.prems have rec: "loop env m1 es = Some out" by simp
        from Cons.IH [OF rec] obtain k where k: "k \<le> length es"
          "stat_vars (ctl (final out)) = stat_vars (record_frames (take k es) (ctl m1))"
          "\<forall>m'. out = Waiting m' \<longrightarrow> k = length es"
          by blast
        from iteration_facts(2) [OF Some] r Ok
        have "stat_vars (ctl m1) = stat_vars (record_frame e (ctl m))" by simp
        then have "stat_vars (record_frames (take k es) (ctl m1))
            = stat_vars (record_frames (take k es) (record_frame e (ctl m)))"
          by (rule stat_vars_record_frames)
        with k(2) have "stat_vars (ctl (final out))
            = stat_vars (record_frames (take (Suc k) (e # es)) (ctl m))"
          by simp
        moreover have "Suc k \<le> length (e # es)" using k(1) by simp
        moreover have "\<forall>m'. out = Waiting m' \<longrightarrow> Suc k = length (e # es)"
          using k(3) by simp
        ultimately show ?thesis by blast
      next
        case (Failed x m1)
        with r Some Cons.prems have out: "out = Returned (Some (OptionError x)) m1" by simp
        from iteration_Failed [OF Some] r Failed
        have "apply_options env (options (ctl m)) (promote m) = Failed x m1" by simp
        from apply_options_Failed [OF this] obtain pre opt rest m2 where
          2: "apply_options env pre (promote m) = Ok m2" "apply_option env opt m2 = Failed x m1"
          by blast
        from apply_options_Ok [OF 2(1)] apply_option_Failed_stats [OF 2(2)]
        have "stat_vars (ctl m1) = stat_vars (ctl m)"
          by (simp add: promote_keeps)
        then have "stat_vars (ctl (final out)) = stat_vars (record_frames (take 0 (e # es)) (ctl m))"
          by (simp add: out)
        moreover have "\<forall>m'. out = Waiting m' \<longrightarrow> 0 = length (e # es)"
          by (simp add: out)
        ultimately show ?thesis by blast
      next
        case (Panic m1)
        with r iteration_not_Panic [OF Some] show ?thesis by blast
      qed
    qed
  qed
qed

text \<open>
  Let the variables of the statistics be what recording the frames \<open>ds0\<close> from the start
  of the program has made them (none, when the run is the first). Whatever the outcome
  of \<open>Run\<close>, and in particular each time the run is at the top of an iteration, the run
  has recorded a prefix of the clock (all of it, when it waits for the clock), and the
  package variables \<open>frametime\<close> and \<open>xruns\<close> hold what the specification exposes for the
  frames recorded so far: the average frame time and the overrun count of the last window
  completed, and zero and zero while no window has been completed.
\<close>

lemma window_vars_last_window:
  fixes m0 :: "('s, 'o, 'w) machine"
  assumes "stat_vars (ctl m0) = stat_vars (record_frames ds0 (initial :: ('s, 'o) globals))"
    and "Run env start m0 es = Some out"
  shows "\<exists>k\<le>length es. window_vars (ctl (final out)) = exposed (ds0 @ take k es)
    \<and> (\<forall>m. out = Waiting m \<longrightarrow> k = length es)"
proof -
  have "\<exists>k\<le>length es. stat_vars (ctl (final out)) = stat_vars (record_frames (take k es) (ctl m0))
    \<and> (\<forall>m. out = Waiting m \<longrightarrow> k = length es)"
  proof (cases "state (ctl m0)")
    case (Some s)
    with assms(2) have "out = Returned (Some AlreadyRunning) m0"
      by (simp add: Run_def)
    then have "stat_vars (ctl (final out)) = stat_vars (record_frames (take 0 es) (ctl m0))
      \<and> (\<forall>m. out = Waiting m \<longrightarrow> 0 = length es)"
      by simp
    then show ?thesis by blast
  next
    case None
    show ?thesis
    proof (cases start)
      case start: None
      with None assms(2) have "out = Panicked m0"
        by (simp add: Run_def)
      then have "stat_vars (ctl (final out)) = stat_vars (record_frames (take 0 es) (ctl m0))
        \<and> (\<forall>m. out = Waiting m \<longrightarrow> 0 = length es)"
        by simp
      then show ?thesis by blast
    next
      case (Some s)
      with assms(2) Run_idle [OF None, of env s es]
      have "loop env (primed env s m0) es = Some out" by simp
      from loop_stat_vars [OF this] obtain k where k: "k \<le> length es"
        "stat_vars (ctl (final out)) = stat_vars (record_frames (take k es) (ctl (primed env s m0)))"
        "\<forall>m'. out = Waiting m' \<longrightarrow> k = length es"
        by blast
      have "stat_vars (record_frames (take k es) (ctl (primed env s m0)))
          = stat_vars (record_frames (take k es) (ctl m0))"
        by (rule stat_vars_record_frames) (simp add: primed_keeps)
      with k show ?thesis by auto
    qed
  qed
  then obtain k where k: "k \<le> length es"
    "stat_vars (ctl (final out)) = stat_vars (record_frames (take k es) (ctl m0))"
    "\<forall>m. out = Waiting m \<longrightarrow> k = length es"
    by blast
  let ?i = "initial :: ('s, 'o) globals"
  from assms(1) have "stat_vars (record_frames (take k es) (ctl m0))
      = stat_vars (record_frames (take k es) (record_frames ds0 ?i))"
    by (rule stat_vars_record_frames)
  with k(2) have "stat_vars (ctl (final out)) = stat_vars (record_frames (ds0 @ take k es) ?i)"
    by (simp add: record_frames_append)
  then have "window_vars (ctl (final out)) = window_vars (record_frames (ds0 @ take k es) ?i)"
    by (rule window_vars_stat_vars)
  then have "window_vars (ctl (final out)) = exposed (ds0 @ take k es)"
    by (simp add: window_vars_record_frames_initial)
  with k(1,3) show ?thesis by blast
qed

subsection \<open>What \<open>Stats\<close> returns\<close>

text \<open>
  C1. The claim is what the comment of \<open>Stats\<close> promises, and the package variables do
  hold the values of the last window completed (above); but \<open>Stats\<close> does not return
  them. Its first result is always zero, whatever the variable \<open>frametime\<close> holds; only
  the overrun count is returned. After frames of 200 ms and 60 ms, which complete one
  window, the variables hold the average 130000000 ns and 2 overruns, and \<open>Stats\<close>
  returns 0 and 2.
\<close>

theorem Stats_shadows_frametime:
  "Stats g = (0, xruns g)
   \<and> Run demo_env (Some 0) idle [200000000, 60000000] = Some (Waiting two_frames)
   \<and> window_vars (ctl two_frames) = exposed [200000000, 60000000]
   \<and> exposed [200000000, 60000000] = (130000000, 2)
   \<and> Stats (ctl two_frames) = (0, 2)
   \<and> Stats (ctl two_frames) \<noteq> exposed [200000000, 60000000]"
proof -
  have h: "stat_vars (ctl idle) = stat_vars (record_frames [] (initial :: (nat, nat) globals))"
    by (simp add: idle_def)
  from window_vars_last_window [OF h idle_windowed] obtain k where
    "window_vars (ctl (final (Waiting two_frames)))
       = exposed ([] @ take k [200000000, 60000000])"
    and "k = length [200000000 :: duration, 60000000]"
    by auto
  then have v: "window_vars (ctl two_frames) = exposed [200000000, 60000000]"
    by simp
  have w: "window_vars (ctl two_frames) = (130000000, 2)"
    by (simp add: window_vars_def two_frames_def)
  have s: "Stats (ctl two_frames) = (0, 2)"
    by (simp add: Stats_def two_frames_def)
  from v w have e: "exposed [200000000, 60000000] = (130000000, 2)"
    by simp
  with s have d: "Stats (ctl two_frames) \<noteq> exposed [200000000, 60000000]"
    by simp
  have "Stats g = (0, xruns g)"
    by (simp add: Stats_def)
  with idle_windowed v e s d show ?thesis
    by blast
qed

subsection \<open>Counting the calls\<close>

lemma count_list_append: "count_list (xs @ ys) x = count_list xs x + count_list ys x"
  by (induction xs) simp_all

lemma count_list_pairs:
  "a \<noteq> b \<Longrightarrow> count_list (concat (replicate n [a, b])) a = n"
  "a \<noteq> b \<Longrightarrow> count_list (concat (replicate n [a, b])) b = n"
  "c \<noteq> a \<Longrightarrow> c \<noteq> b \<Longrightarrow> count_list (concat (replicate n [a, b])) c = 0"
  by (induction n; simp)+

lemma count_list_Apply: "count_list (map Apply os) (Call c) = 0"
  by (induction os) simp_all

lemma react_update_catch_up:
  "state (ctl m) = Some s \<Longrightarrow> react_update env m = drain env (catch_up env s m)"
  by (simp add: react_update_def on_state_def catch_up_def)

lemma iteration_completes:
  assumes "next (ctl m) = Some s"
    and "apply_options env (options (ctl m)) (promote m) = Ok m1"
    and "0 <s step (ctl m1)" and "0 \<le>s lag (ctl m1)"
  shows "\<exists>m'. iteration env e m = Some (Ok m')"
proof -
  from apply_options_Ok [OF assms(2)] assms(1) have st1: "state (ctl m1) = Some s"
    by (simp add: promote_keeps)
  let ?p = "catch_up env s m1"
  have p: "state (ctl ?p) = Some s" "0 <s step (ctl ?p)" "0 \<le>s lag (ctl ?p)"
    using st1 assms(3,4) by (simp_all add: catch_up_keeps)
  from drain_terminates [OF p, of env] obtain n where
    d: "drain env ?p = Some (Ok ((drain_round env s ^^ n) ?p))"
    by blast
  have ru: "react_update env m1 = Some (Ok ((drain_round env s ^^ n) ?p))"
    using d by (simp only: react_update_catch_up [OF st1])
  have "state (ctl ((drain_round env s ^^ n) ?p)) = Some s"
    using st1 by (simp add: rounds_keeps catch_up_keeps)
  from render_measure_Some [OF this, of env e] ru assms(2)
  have "iteration env e m = Some (Ok (frame_end env s e ((drain_round env s ^^ n) ?p)))"
    by (simp add: iteration_def Let_def promote_keeps)
  then show ?thesis by blast
qed

lemma measure_frame_lag: "lag (measure_frame e g) = lag g + delta (measure_frame e g)"
  by (simp add: measure_frame_def Let_def record_frame_keeps)

text \<open>
  C6. In an iteration that completes, on state \<open>s\<close>, the calls made after the options
  have been applied are: one \<open>React\<close> if \<open>lag < step\<close> holds at that point, and none
  otherwise; then \<open>n\<close> times \<open>React\<close> followed by \<open>Update\<close>, where \<open>n\<close> is the number of
  times \<open>step\<close> was subtracted from \<open>lag\<close>; then one \<open>Render\<close>. So \<open>Update\<close> is called as
  often as \<open>React\<close> is called by the drain loop, and \<open>Render\<close> once. The iteration does
  complete when the options succeed and leave a positive step and a lag that is not
  negative.
\<close>

theorem iteration_calls:
  assumes "next (ctl m) = Some s"
  shows "(\<forall>m'. iteration env e m = Some (Ok m') \<longrightarrow>
      (\<exists>m1 n calls. apply_options env (options (ctl m)) (promote m) = Ok m1
        \<and> trace m1 = trace m @ map Apply (options (ctl m))
        \<and> calls = (if lag (ctl m1) <s step (ctl m1) then [Call (React s)] else [])
            @ concat (replicate n [Call (React s), Call (Update s)]) @ [Call (Render s)]
        \<and> trace m' = trace m1 @ calls
        \<and> lag (ctl m') = lag (ctl m1) - word_of_nat n * step (ctl m1) + delta (ctl m')
        \<and> count_list calls (Call (Update s)) = n
        \<and> count_list calls (Call (React s)) = n + (if lag (ctl m1) <s step (ctl m1) then 1 else 0)
        \<and> count_list calls (Call (Render s)) = 1))
    \<and> (\<forall>m1. apply_options env (options (ctl m)) (promote m) = Ok m1
          \<and> 0 <s step (ctl m1) \<and> 0 \<le>s lag (ctl m1)
        \<longrightarrow> (\<exists>m'. iteration env e m = Some (Ok m')))"
proof (intro conjI allI impI)
  fix m' assume it: "iteration env e m = Some (Ok m')"
  from assms it obtain m1 n where
    1: "apply_options env (options (ctl m)) (promote m) = Ok m1"
    and m': "m' = frame_end env s e ((drain_round env s ^^ n) (catch_up env s m1))"
    by (rule iteration_Ok)
  let ?calls = "(if lag (ctl m1) <s step (ctl m1) then [Call (React s)] else [])
            @ concat (replicate n [Call (React s), Call (Update s)]) @ [Call (Render s)]"
  from apply_options_Ok [OF 1] have t1: "trace m1 = trace m @ map Apply (options (ctl m))"
    by (simp add: promote_keeps)
  have t: "trace m' = trace m1 @ ?calls"
    unfolding m' by (simp add: frame_end_keeps rounds_trace catch_up_keeps)
  have l: "lag (ctl m') = lag (ctl m1) - word_of_nat n * step (ctl m1) + delta (ctl m')"
    unfolding m' frame_end_def
    by (simp add: measure_frame_lag invoke_keeps rounds_lag catch_up_keeps)
  have ne: "Call (React s) \<noteq> Call (Update s)" "Call (Render s) \<noteq> Call (React s)"
    "Call (Render s) \<noteq> Call (Update s)"
    by simp_all
  have c1: "count_list ?calls (Call (Update s)) = n"
    by (simp add: count_list_append count_list_pairs(2) [OF ne(1)])
  have c2: "count_list ?calls (Call (React s))
      = n + (if lag (ctl m1) <s step (ctl m1) then 1 else 0)"
    by (simp add: count_list_append count_list_pairs(1) [OF ne(1)])
  have c3: "count_list ?calls (Call (Render s)) = 1"
    by (simp add: count_list_append count_list_pairs(3) [OF ne(2,3)])
  from 1 t1 t l c1 c2 c3
  show "\<exists>m1 n calls. apply_options env (options (ctl m)) (promote m) = Ok m1
        \<and> trace m1 = trace m @ map Apply (options (ctl m))
        \<and> calls = (if lag (ctl m1) <s step (ctl m1) then [Call (React s)] else [])
            @ concat (replicate n [Call (React s), Call (Update s)]) @ [Call (Render s)]
        \<and> trace m' = trace m1 @ calls
        \<and> lag (ctl m') = lag (ctl m1) - word_of_nat n * step (ctl m1) + delta (ctl m')
        \<and> count_list calls (Call (Update s)) = n
        \<and> count_list calls (Call (React s)) = n + (if lag (ctl m1) <s step (ctl m1) then 1 else 0)
        \<and> count_list calls (Call (Render s)) = 1"
    by (intro exI [of _ m1] exI [of _ n] exI [of _ ?calls] conjI refl)
next
  fix m1
  assume "apply_options env (options (ctl m)) (promote m) = Ok m1
          \<and> 0 <s step (ctl m1) \<and> 0 \<le>s lag (ctl m1)"
  with iteration_completes [OF assms, of env m1 e]
  show "\<exists>m'. iteration env e m = Some (Ok m')"
    by blast
qed

theorem iteration_calls_witness:
  "next (ctl at_step) = Some 7
   \<and> iteration demo_env 3 at_step = Some (Ok stepped)
   \<and> (\<exists>m1 n calls. apply_options demo_env (options (ctl at_step)) (promote at_step) = Ok m1
        \<and> trace m1 = trace at_step @ map Apply (options (ctl at_step))
        \<and> calls = (if lag (ctl m1) <s step (ctl m1) then [Call (React 7)] else [])
            @ concat (replicate n [Call (React 7), Call (Update 7)]) @ [Call (Render 7)]
        \<and> trace stepped = trace m1 @ calls
        \<and> lag (ctl stepped) = lag (ctl m1) - word_of_nat n * step (ctl m1) + delta (ctl stepped)
        \<and> count_list calls (Call (Update 7)) = n
        \<and> count_list calls (Call (React 7)) = n + (if lag (ctl m1) <s step (ctl m1) then 1 else 0)
        \<and> count_list calls (Call (Render 7)) = 1)
   \<and> trace stepped = trace at_step @ [Call (React 7), Call (Update 7), Call (Render 7)]
   \<and> apply_options demo_env (options (ctl at_step)) (promote at_step) = Ok (promote at_step)
   \<and> 0 <s step (ctl (promote at_step)) \<and> 0 \<le>s lag (ctl (promote at_step))
   \<and> (\<exists>m'. iteration demo_env 3 at_step = Some (Ok m'))"
proof -
  have n: "next (ctl at_step) = Some 7"
    by (simp add: at_step_def busy_def)
  have a: "apply_options demo_env (options (ctl at_step)) (promote at_step) = Ok (promote at_step)"
    "0 <s step (ctl (promote at_step))" "0 \<le>s lag (ctl (promote at_step))"
    by (simp_all add: at_step_def busy_def initial_def promote_def Second_def
        word_sless_alt word_sle_eq)
  have t: "trace stepped = trace at_step @ [Call (React 7), Call (Update 7), Call (Render 7)]"
    by (simp add: stepped_def at_step_def busy_def)
  from iteration_calls [OF n, of demo_env 3] at_step_iteration a n t show ?thesis
    by blast
qed

subsection \<open>The lag after the drain phase\<close>

text \<open>A measurement keeps the lag from going negative when the step is positive and at
  most \<open>2^60\<close> nanoseconds and the time elapsed is not negative.\<close>

lemma measure_frame_lag_nonneg:
  assumes "0 \<le>s lag g" and "lag g <s step g" and "0 <s step g" and "sint (step g) \<le> 2 ^ 60"
    and "0 \<le>s e"
  shows "0 \<le>s lag (measure_frame e g)"
proof -
  have s4: "sint (4 * step g) = 4 * sint (step g)"
  proof -
    have "sint (4 * step g) = signed_take_bit 63 (4 * sint (step g))"
      by (simp add: sint_word_ariths)
    also have "\<dots> = 4 * sint (step g)"
      using assms(3,4) by (intro signed_take_bit_int_eq_self) (simp_all add: word_sless_alt)
    finally show ?thesis .
  qed
  let ?d = "delta (measure_frame e g)"
  have d: "?d = (if 4 * step g <s e then 4 * step g else e)"
    by (simp add: measure_frame_def Let_def record_frame_keeps)
  have db: "0 \<le> sint ?d" "sint ?d \<le> 4 * sint (step g)"
    using assms(3,5) s4 unfolding d by (simp_all add: word_sless_alt word_sle_eq)
  have lb: "0 \<le> sint (lag g)" "sint (lag g) < sint (step g)"
    using assms(1,2) by (simp_all add: word_sless_alt word_sle_eq)
  have "sint (lag g + ?d) = signed_take_bit 63 (sint (lag g) + sint ?d)"
    by (simp add: sint_word_ariths)
  also have "\<dots> = sint (lag g) + sint ?d"
    using db lb assms(4) by (intro signed_take_bit_int_eq_self) simp_all
  finally have "0 \<le> sint (lag g + ?d)"
    using db lb by simp
  then show ?thesis
    by (simp add: measure_frame_lag word_sle_eq)
qed

text \<open>
  C4, as stated, fails. With a step of \<open>2^61 + 1\<close> nanoseconds queued, \<open>4 * step\<close> wraps to
  \<open>-2^63 + 4\<close> in \<open>int64\<close>; the first measurement (5 ns elapsed) clamps \<open>delta\<close> to that
  value and adds it to \<open>lag\<close>; in the second iteration \<open>lag < step\<close> holds, the drain loop
  is not entered, and the lag after the drain phase is negative.
\<close>

theorem drain_phase_lag_counterexample:
  "Run demo_env (Some 0) far_step [5] = Some (Waiting far_top)
   \<and> apply_options demo_env (options (ctl far_top)) (promote far_top) = Ok far_applied
   \<and> react_update demo_env far_applied = Some (Ok far_drained)
   \<and> sint (lag (ctl far_drained)) = - 9223372036854775804
   \<and> \<not> (0 \<le>s lag (ctl far_drained) \<and> lag (ctl far_drained) <s step (ctl far_drained))"
proof -
  have "sint (lag (ctl far_drained)) = - 9223372036854775804"
    by (simp add: far_drained_def far_applied_def far_top_def promote_def)
  then have "\<not> (0 \<le>s lag (ctl far_drained) \<and> lag (ctl far_drained) <s step (ctl far_drained))"
    by (simp add: word_sle_eq)
  with far_one far_two(1,2) \<open>sint (lag (ctl far_drained)) = - 9223372036854775804\<close>
  show ?thesis by blast
qed

text \<open>
  C4 (amended). Whatever the step and the lag, a drain phase that ends leaves
  \<open>lag < step\<close>. Let the state be set, the step positive and the lag not negative when
  the loop reaches line 115. Then the drain phase ends, after \<open>n\<close> rounds with
  \<open>lag = n * step + lag'\<close>, and leaves \<open>0 <= lag' < step\<close>. When \<open>lag = step\<close> at that
  point, \<open>n = 1\<close>: there is no single \<open>React\<close>, the loop body runs once (one \<open>React\<close>,
  one \<open>Update\<close>) and leaves \<open>lag' = 0\<close>. If moreover the step is at most \<open>2^60\<close>
  nanoseconds and the time elapsed is not negative, the lag is not negative after the
  measurement either, that is when the next iteration begins (and \<open>Run\<close> begins with
  \<open>lag = 0\<close>).
\<close>

theorem drain_phase_lag:
  assumes "state (ctl m) = Some s"
  shows "(\<forall>m'. react_update env m = Some (Ok m') \<longrightarrow> lag (ctl m') <s step (ctl m'))
    \<and> (0 <s step (ctl m) \<and> 0 \<le>s lag (ctl m) \<longrightarrow>
         (\<exists>m' n. react_update env m = Some (Ok m')
            \<and> 0 \<le>s lag (ctl m') \<and> lag (ctl m') <s step (ctl m')
            \<and> step (ctl m') = step (ctl m)
            \<and> sint (lag (ctl m)) = int n * sint (step (ctl m)) + sint (lag (ctl m'))
            \<and> (lag (ctl m) = step (ctl m) \<longrightarrow>
                 n = 1 \<and> lag (ctl m') = 0
                 \<and> trace m' = trace m @ [Call (React s), Call (Update s)])
            \<and> (\<forall>e. sint (step (ctl m)) \<le> 2 ^ 60 \<and> 0 \<le>s e
                 \<longrightarrow> 0 \<le>s lag (ctl (frame_end env s e m')))))"
proof (intro conjI allI impI)
  fix m' assume "react_update env m = Some (Ok m')"
  from react_update_rounds [OF this assms] obtain n where
    n: "m' = (drain_round env s ^^ n) (catch_up env s m)"
    "\<not> step (ctl m) \<le>s lag (ctl ((drain_round env s ^^ n) (catch_up env s m)))"
    by blast
  then show "lag (ctl m') <s step (ctl m')"
    by (simp add: rounds_keeps catch_up_keeps word_sless_alt word_sle_eq)
next
  assume pre: "0 <s step (ctl m) \<and> 0 \<le>s lag (ctl m)"
  let ?p = "catch_up env s m"
  have p: "state (ctl ?p) = Some s" "0 <s step (ctl ?p)" "0 \<le>s lag (ctl ?p)"
    using assms pre by (simp_all add: catch_up_keeps)
  from drain_terminates [OF p, of env] obtain n where
    d: "drain env ?p = Some (Ok ((drain_round env s ^^ n) ?p))"
    and lo: "0 \<le>s lag (ctl ((drain_round env s ^^ n) ?p))"
    and hi: "lag (ctl ((drain_round env s ^^ n) ?p)) <s step (ctl m)"
    and eq: "sint (lag (ctl m)) = int n * sint (step (ctl m))
        + sint (lag (ctl ((drain_round env s ^^ n) ?p)))"
    by (auto simp: catch_up_keeps)
  let ?m' = "(drain_round env s ^^ n) ?p"
  have ru: "react_update env m = Some (Ok ?m')"
    using d by (simp only: react_update_catch_up [OF assms])
  have sp: "step (ctl ?m') = step (ctl m)"
    by (simp add: rounds_keeps catch_up_keeps)
  have edge: "n = 1 \<and> lag (ctl ?m') = 0 \<and> trace ?m' = trace m @ [Call (React s), Call (Update s)]"
    if same: "lag (ctl m) = step (ctl m)"
  proof -
    have pos: "0 < sint (step (ctl m))"
      using pre by (simp add: word_sless_alt)
    have b: "0 \<le> sint (lag (ctl ?m'))" "sint (lag (ctl ?m')) < sint (step (ctl m))"
      using lo hi by (simp_all add: word_sless_alt word_sle_eq)
    from eq same have e: "sint (step (ctl m)) = int n * sint (step (ctl m)) + sint (lag (ctl ?m'))"
      by simp
    have "n = 1"
    proof (rule ccontr)
      assume "n \<noteq> 1"
      then consider "n = 0" | "2 \<le> n" by linarith
      then show False
      proof cases
        case 1
        with e b show False by simp
      next
        case 2
        then have "2 * sint (step (ctl m)) \<le> int n * sint (step (ctl m))"
          using pos by (intro mult_right_mono) simp_all
        with e b pos show False by linarith
      qed
    qed
    moreover from this e have "sint (lag (ctl ?m')) = 0" by simp
    then have "lag (ctl ?m') = 0" by (simp add: signed_eq_0_iff)
    moreover have "\<not> lag (ctl m) <s step (ctl m)"
      using same by (simp add: word_sless_alt)
    then have "trace ?m' = trace m @ [Call (React s), Call (Update s)]"
      using \<open>n = 1\<close> by (simp add: catch_up_def drain_round_keeps)
    ultimately show ?thesis by blast
  qed
  have hi': "lag (ctl ?m') <s step (ctl ?m')"
    using hi by (simp only: sp)
  have edge': "lag (ctl m) = step (ctl m) \<longrightarrow>
      n = 1 \<and> lag (ctl ?m') = 0 \<and> trace ?m' = trace m @ [Call (React s), Call (Update s)]"
    using edge by blast
  have again: "\<forall>e. sint (step (ctl m)) \<le> 2 ^ 60 \<and> 0 \<le>s e
      \<longrightarrow> 0 \<le>s lag (ctl (frame_end env s e ?m'))"
  proof (intro allI impI)
    fix e :: duration assume e: "sint (step (ctl m)) \<le> 2 ^ 60 \<and> 0 \<le>s e"
    let ?g = "ctl (invoke env (Render s) ?m')"
    have "0 \<le>s lag ?g" "lag ?g <s step ?g" "0 <s step ?g" "sint (step ?g) \<le> 2 ^ 60"
      using lo hi' sp pre e by (simp_all add: invoke_keeps)
    from measure_frame_lag_nonneg [OF this, of e] e
    show "0 \<le>s lag (ctl (frame_end env s e ?m'))"
      by (simp add: frame_end_def)
  qed
  from ru lo hi' sp eq edge' again
  show "\<exists>m' n. react_update env m = Some (Ok m')
            \<and> 0 \<le>s lag (ctl m') \<and> lag (ctl m') <s step (ctl m')
            \<and> step (ctl m') = step (ctl m)
            \<and> sint (lag (ctl m)) = int n * sint (step (ctl m)) + sint (lag (ctl m'))
            \<and> (lag (ctl m) = step (ctl m) \<longrightarrow>
                 n = 1 \<and> lag (ctl m') = 0
                 \<and> trace m' = trace m @ [Call (React s), Call (Update s)])
            \<and> (\<forall>e. sint (step (ctl m)) \<le> 2 ^ 60 \<and> 0 \<le>s e
                 \<longrightarrow> 0 \<le>s lag (ctl (frame_end env s e m')))"
    by blast
qed

theorem drain_phase_lag_witness:
  "state (ctl at_step) = Some 7
   \<and> 0 <s step (ctl at_step) \<and> 0 \<le>s lag (ctl at_step)
   \<and> lag (ctl at_step) = step (ctl at_step)
   \<and> react_update demo_env at_step = Some (Ok at_step_drained)
   \<and> lag (ctl at_step_drained) <s step (ctl at_step_drained)
   \<and> (\<exists>m' n. react_update demo_env at_step = Some (Ok m')
        \<and> 0 \<le>s lag (ctl m') \<and> lag (ctl m') <s step (ctl m')
        \<and> step (ctl m') = step (ctl at_step)
        \<and> sint (lag (ctl at_step)) = int n * sint (step (ctl at_step)) + sint (lag (ctl m'))
        \<and> n = 1 \<and> lag (ctl m') = 0
        \<and> trace m' = trace at_step @ [Call (React 7), Call (Update 7)]
        \<and> 0 \<le>s lag (ctl (frame_end demo_env 7 3 m')))
   \<and> sint (step (ctl at_step)) \<le> 2 ^ 60 \<and> 0 \<le>s (3 :: duration)"
proof -
  have s: "state (ctl at_step) = Some 7"
    by (simp add: at_step_def busy_def)
  have p: "0 <s step (ctl at_step)" "0 \<le>s lag (ctl at_step)"
    "lag (ctl at_step) = step (ctl at_step)"
    "sint (step (ctl at_step)) \<le> 2 ^ 60" "0 \<le>s (3 :: duration)"
    by (simp_all add: at_step_def busy_def initial_def Second_def word_sless_alt word_sle_eq)
  from drain_phase_lag [OF s, of demo_env] at_step_react_update s p show ?thesis
    by blast
qed


text \<open>
  C7. In an iteration that completes, on state \<open>s\<close>, every callback is called on \<open>s\<close> and
  the variable \<open>state\<close> still holds \<open>s\<close> at the end, whatever was requested. Let \<open>rs\<close> be
  the requests made during the iteration, in order. If the last of them that is not a
  \<open>Configure\<close> is \<open>Goto l\<close>, the variable \<open>next\<close> holds \<open>l\<close> at the end, and \<open>l\<close> is what
  the top of the next iteration stores in \<open>state\<close>. If it is \<open>Stop\<close>, \<open>next\<close> is empty and
  the loop goes to its exit, whatever the clock. If there is none, \<open>next\<close> still holds \<open>s\<close>.
\<close>

theorem goto_last_wins:
  assumes "next (ctl m) = Some s" and "iteration env e m = Some (Ok m')"
  shows "state (ctl m') = Some s
    \<and> (\<forall>c. Call c \<in> set (drop (length (trace m)) (trace m'))
          \<longrightarrow> c = React s \<or> c = Update s \<or> c = Render s)
    \<and> (\<exists>rs. issued m' = issued m @ rs
        \<and> ((\<forall>r\<in>set rs. is_configure r) \<longrightarrow> next (ctl m') = Some s)
        \<and> (\<forall>rs1 l rs2. rs = rs1 @ GotoReq l # rs2 \<and> (\<forall>r\<in>set rs2. is_configure r)
              \<longrightarrow> next (ctl m') = l \<and> state (ctl (promote m')) = l)
        \<and> (\<forall>rs1 rs2. rs = rs1 @ StopReq # rs2 \<and> (\<forall>r\<in>set rs2. is_configure r)
              \<longrightarrow> next (ctl m') = None \<and> (\<forall>es. loop env m' es = Some (leave env m'))))"
proof (intro conjI)
  show "state (ctl m') = Some s"
    using assms by (rule iteration_facts(1))
next
  from iteration_trace [OF assms] obtain m1 n where
    "apply_options env (options (ctl m)) (promote m) = Ok m1"
    and t: "trace m' = trace m @ map Apply (options (ctl m))
        @ (if lag (ctl m1) <s step (ctl m1) then [Call (React s)] else [])
        @ concat (replicate n [Call (React s), Call (Update s)]) @ [Call (Render s)]"
    by blast
  show "\<forall>c. Call c \<in> set (drop (length (trace m)) (trace m'))
          \<longrightarrow> c = React s \<or> c = Update s \<or> c = Render s"
    unfolding t by (auto split: if_splits)
next
  from iteration_facts(3) [OF assms] obtain rs where "asked m m' rs" by blast
  then have i: "issued m' = issued m @ rs" and n: "next (ctl m') = pending rs (Some s)"
    using assms(1) by (simp_all add: asked_def)
  have 1: "next (ctl m') = Some s" if "\<forall>r\<in>set rs. is_configure r"
    using n that by (simp add: pending_configure)
  have 2: "next (ctl m') = l \<and> state (ctl (promote m')) = l"
    if "rs = rs1 @ GotoReq l # rs2 \<and> (\<forall>r\<in>set rs2. is_configure r)" for rs1 l rs2
    using n that by (simp add: pending_last_goto promote_keeps)
  have 3: "next (ctl m') = None \<and> (\<forall>es. loop env m' es = Some (leave env m'))"
    if "rs = rs1 @ StopReq # rs2 \<and> (\<forall>r\<in>set rs2. is_configure r)" for rs1 rs2
  proof -
    from n that have "next (ctl m') = None"
      by (simp add: pending_last_stop)
    then show ?thesis
      by (simp add: loop_exit)
  qed
  from i 1 2 3
  show "\<exists>rs. issued m' = issued m @ rs
        \<and> ((\<forall>r\<in>set rs. is_configure r) \<longrightarrow> next (ctl m') = Some s)
        \<and> (\<forall>rs1 l rs2. rs = rs1 @ GotoReq l # rs2 \<and> (\<forall>r\<in>set rs2. is_configure r)
              \<longrightarrow> next (ctl m') = l \<and> state (ctl (promote m')) = l)
        \<and> (\<forall>rs1 rs2. rs = rs1 @ StopReq # rs2 \<and> (\<forall>r\<in>set rs2. is_configure r)
              \<longrightarrow> next (ctl m') = None \<and> (\<forall>es. loop env m' es = Some (leave env m')))"
    by blast
qed

theorem goto_last_wins_witness:
  "next (ctl busy) = Some 7
   \<and> iteration hop_env 9 busy = Some (Ok hopped)
   \<and> state (ctl hopped) = Some 7
   \<and> issued hopped = issued busy @ [GotoReq (Some 5), StopReq, GotoReq (Some 6),
        ConfigureReq [TimeStep 20000000]] @ GotoReq (Some 8) # [ConfigureReq []]
   \<and> is_configure (ConfigureReq [] :: (nat, nat) request)
   \<and> next (ctl hopped) = Some 8
   \<and> state (ctl (promote hopped)) = Some 8
   \<and> next (ctl idle_third) = Some 2
   \<and> iteration demo_env 100000000 idle_third = Some (Ok idle_rendered)
   \<and> issued idle_rendered = issued idle_third @ [] @ StopReq # []
   \<and> next (ctl idle_rendered) = None
   \<and> loop demo_env idle_rendered [1, 2] = Some (leave demo_env idle_rendered)"
proof -
  have n: "next (ctl busy) = Some 7"
    by (simp add: busy_def)
  from goto_last_wins [OF n hop_iteration] obtain rs where
    st: "state (ctl hopped) = Some 7"
    and i: "issued hopped = issued busy @ rs"
    and g: "\<forall>rs1 l rs2. rs = rs1 @ GotoReq l # rs2 \<and> (\<forall>r\<in>set rs2. is_configure r)
              \<longrightarrow> next (ctl hopped) = l \<and> state (ctl (promote hopped)) = l"
    by blast
  from i have rs: "rs = [GotoReq (Some 5), StopReq, GotoReq (Some 6),
        ConfigureReq [TimeStep 20000000]] @ GotoReq (Some 8) # [ConfigureReq []]"
    by (simp add: hopped_def busy_def)
  have c: "is_configure (ConfigureReq [] :: (nat, nat) request)"
    by (simp add: is_configure_def)
  then have "\<forall>r\<in>set [ConfigureReq [] :: (nat, nat) request]. is_configure r"
    by simp
  with g rs have 1: "next (ctl hopped) = Some 8 \<and> state (ctl (promote hopped)) = Some 8"
    by blast
  have n2: "next (ctl idle_third) = Some 2"
    by (simp add: idle_third_def)
  from goto_last_wins [OF n2 idle_third_iteration] obtain rs' where
    i': "issued idle_rendered = issued idle_third @ rs'"
    and s': "\<forall>rs1 rs2. rs' = rs1 @ StopReq # rs2 \<and> (\<forall>r\<in>set rs2. is_configure r)
              \<longrightarrow> next (ctl idle_rendered) = None
                \<and> (\<forall>es. loop demo_env idle_rendered es = Some (leave demo_env idle_rendered))"
    by blast
  from i' have rs': "rs' = [] @ StopReq # []"
    by (simp add: idle_rendered_def idle_third_def)
  with s' have 2: "next (ctl idle_rendered) = None
      \<and> loop demo_env idle_rendered [1, 2] = Some (leave demo_env idle_rendered)"
    by (metis empty_iff list.set(1))
  from n hop_iteration st i rs c 1 n2 idle_third_iteration i' rs' 2 show ?thesis
    by simp
qed

subsection \<open>The clamp\<close>

text \<open>
  C5. Whatever the time elapsed \<open>e\<close>, the measurement stores in \<open>delta\<close> the smaller of
  \<open>e\<close> and \<open>4 * step\<close> (in the signed order, \<open>4 * step\<close> being the \<open>int64\<close> product the code
  computes), so \<open>delta <= 4 * step\<close>; it adds that value to \<open>lag\<close> and leaves \<open>step\<close> alone;
  and no request changes what \<open>Delta\<close> returns. When \<open>step\<close> lies between \<open>-2^61\<close> and
  \<open>2^61\<close> the product does not wrap, and \<open>delta\<close> is the minimum of the two integers.
\<close>

theorem measure_frame_clamp:
  "Delta (measure_frame e g) = (if 4 * step g <s e then 4 * step g else e)
   \<and> Delta (measure_frame e g) \<le>s 4 * Step g
   \<and> Lag (measure_frame e g) = lag g + Delta (measure_frame e g)
   \<and> Step (measure_frame e g) = step g
   \<and> Delta (perform_all rs (measure_frame e g)) = Delta (measure_frame e g)
   \<and> (- (2 ^ 61) \<le> sint (step g) \<and> sint (step g) < 2 ^ 61 \<longrightarrow>
        sint (Delta (measure_frame e g)) = min (sint e) (4 * sint (step g)))"
proof -
  have d: "Delta (measure_frame e g) = (if 4 * step g <s e then 4 * step g else e)"
    by (simp add: measure_frame_def record_frame_def Delta_def Let_def stats_keeps)
  have le: "Delta (measure_frame e g) \<le>s 4 * Step g"
    unfolding d by (simp add: Step_def word_sle_eq word_sless_alt)
  have l: "Lag (measure_frame e g) = lag g + Delta (measure_frame e g)"
    by (simp add: measure_frame_def record_frame_def Delta_def Lag_def Let_def stats_keeps)
  have s: "Step (measure_frame e g) = step g"
    by (simp add: measure_frame_def record_frame_def Step_def Let_def stats_keeps)
  have p: "Delta (perform_all rs (measure_frame e g)) = Delta (measure_frame e g)"
    by (simp add: Delta_def perform_all_keeps)
  have m: "sint (Delta (measure_frame e g)) = min (sint e) (4 * sint (step g))"
    if "- (2 ^ 61) \<le> sint (step g)" "sint (step g) < 2 ^ 61"
  proof -
    have "sint (4 * step g) = signed_take_bit 63 (4 * sint (step g))"
      by (simp add: sint_word_ariths)
    also have "\<dots> = 4 * sint (step g)"
      using that by (intro signed_take_bit_int_eq_self) simp_all
    finally have "sint (4 * step g) = 4 * sint (step g)" .
    then show ?thesis
      unfolding d by (simp add: word_sless_alt min_def)
  qed
  from d le l s p m show ?thesis by blast
qed


theorem measure_frame_clamp_witness:
  "- (2 ^ 61) \<le> sint (step (initial :: (nat, nat) globals))
   \<and> sint (step (initial :: (nat, nat) globals)) < 2 ^ 61
   \<and> Delta (measure_frame 100000000 (initial :: (nat, nat) globals)) = 66666664
   \<and> Delta (measure_frame 100000000 (initial :: (nat, nat) globals)) \<le>s 4 * Step (initial :: (nat, nat) globals)
   \<and> Lag (measure_frame 100000000 (initial :: (nat, nat) globals)) = 66666664
   \<and> Delta (perform_all [StopReq] (measure_frame 100000000 (initial :: (nat, nat) globals))) = 66666664
   \<and> sint (Delta (measure_frame 100000000 (initial :: (nat, nat) globals)))
        = min (sint (100000000 :: duration)) (4 * sint (step (initial :: (nat, nat) globals)))"
proof -
  let ?i = "initial :: (nat, nat) globals"
  have r: "- (2 ^ 61) \<le> sint (step ?i)" "sint (step ?i) < 2 ^ 61"
    by (simp_all add: initial_def Second_def)
  have v: "(if 4 * step ?i <s 100000000 then 4 * step ?i else 100000000) = 66666664"
    "lag ?i = 0"
    by (simp_all add: initial_def Second_def word_sless_alt)
  from measure_frame_clamp [of 100000000 ?i "[StopReq]"] r v show ?thesis
    by (simp add: Step_def initial_def Second_def word_sle_eq)
qed

subsection \<open>One call of \<open>stats\<close>\<close>

text \<open>
  C8. The measurement interval is 250 ms and the overrun threshold 17 ms. One call of
  \<open>stats\<close> counts one frame more, adds \<open>delta\<close> to the accumulated time, and counts one
  overrun more exactly when \<open>delta\<close> exceeds the threshold. If the accumulated time has
  then reached the interval, the quotient of the accumulated time by the frame count and
  the overrun count are published and the three window variables are zero; otherwise
  the window variables hold the new values and what is published is unchanged.
\<close>

theorem stats_window:
  "statsInterval = 250 * Millisecond \<and> xrunThreshold = 17 * Millisecond \<and>
   (let f = interval_frames g + 1;
        t = interval_time g + delta g;
        x = (if xrunThreshold <s delta g then interval_xruns g + 1 else interval_xruns g);
        g' = stats g
    in (statsInterval \<le>s t \<longrightarrow>
          frametime g' = real_of_int (sint t) / real_of_int (sint f) \<and> xruns g' = x \<and>
          interval_frames g' = 0 \<and> interval_time g' = 0 \<and> interval_xruns g' = 0)
     \<and> (\<not> statsInterval \<le>s t \<longrightarrow>
          frametime g' = frametime g \<and> xruns g' = xruns g \<and>
          interval_frames g' = f \<and> interval_time g' = t \<and> interval_xruns g' = x))"
  by (simp add: stats_def Let_def statsInterval_def xrunThreshold_def Second_def Millisecond_def)

theorem stats_window_witness:
  "statsInterval \<le>s interval_time half_window + delta half_window
   \<and> frametime (stats half_window) = 125000000
   \<and> xruns (stats half_window) = 2
   \<and> interval_frames (stats half_window) = 0
   \<and> interval_time (stats half_window) = 0
   \<and> interval_xruns (stats half_window) = 0
   \<and> \<not> statsInterval \<le>s interval_time (initial :: (nat, nat) globals) + delta (initial :: (nat, nat) globals)
   \<and> interval_frames (stats (initial :: (nat, nat) globals)) = 1
   \<and> frametime (stats (initial :: (nat, nat) globals)) = 0"
proof -
  let ?i = "initial :: (nat, nat) globals"
  have a: "statsInterval \<le>s interval_time half_window + delta half_window"
    "xrunThreshold <s delta half_window"
    "interval_time half_window + delta half_window = 250000000"
    "interval_frames half_window + 1 = 2" "interval_xruns half_window + 1 = 2"
    by (simp_all add: half_window_def initial_def statsInterval_def xrunThreshold_def
        Second_def Millisecond_def word_sle_eq word_sless_alt)
  have b: "\<not> statsInterval \<le>s interval_time ?i + delta ?i"
    "interval_frames ?i + 1 = 1" "frametime ?i = 0"
    by (simp_all add: initial_def statsInterval_def Second_def word_sle_eq)
  from stats_window [of half_window] a have 1: "frametime (stats half_window) = 125000000
    \<and> xruns (stats half_window) = 2 \<and> interval_frames (stats half_window) = 0
    \<and> interval_time (stats half_window) = 0 \<and> interval_xruns (stats half_window) = 0"
    by (simp add: Let_def)
  from stats_window [of ?i] b have 2: "interval_frames (stats ?i) = 1 \<and> frametime (stats ?i) = 0"
    by (simp add: Let_def)
  from 1 2 a(1) b(1) show ?thesis by blast
qed

subsection \<open>The guard of \<open>Run\<close>\<close>

text \<open>
  C2. When the loop is running (the variable \<open>state\<close> is not \<open>nil\<close>), \<open>Run\<close>, called with
  any state or with \<open>nil\<close>, on any clock and with any caller code, returns the error
  "already running" at once: the machine it leaves is the machine it found, so no
  callback was invoked, no request was made and no package variable was changed.
\<close>

theorem Run_already_running:
  "Running (ctl m) \<Longrightarrow> Run env start m es = Some (Returned (Some AlreadyRunning) m)"
  by (simp add: Run_def Running_def)

theorem Run_already_running_witness:
  "Running (ctl busy) \<and> Run demo_env (Some 3) busy [5, 6] = Some (Returned (Some AlreadyRunning) busy)"
proof -
  have r: "Running (ctl busy)"
    by (simp add: Running_def busy_def)
  from Run_already_running [OF r] r show ?thesis
    by simp
qed

end
